theory Spec2Isabelle
  imports Main "HOL-Library.Sublist"
begin

section \<open>Strings of the segmentation engine\<close>

text \<open>
  The segmentation engine of \<^verbatim>\<open>src/app/services/utils/process_md.py\<close> works on Python
  \<^verbatim>\<open>str\<close> values. A string is modelled as a \<^typ>\<open>string\<close>, one \<^typ>\<open>char\<close> per code
  point, which covers the code points below 256. On these, \<^verbatim>\<open>str.strip()\<close>,
  \<^verbatim>\<open>str.split()\<close> and the regular-expression class \<^verbatim>\<open>\s\<close> agree on what is white
  space (tab, line feed, vertical tab, form feed, carriage return, the four separators
  0x1C to 0x1F, space, 0x85 and 0xA0), and \<^verbatim>\<open>\d\<close> is one of the ten decimal digits.
\<close>

definition is_space :: "char \<Rightarrow> bool" where
  "is_space c \<longleftrightarrow>
     c = CHR 0x09 \<or> c = CHR 0x0A \<or> c = CHR 0x0B \<or> c = CHR 0x0C \<or> c = CHR 0x0D \<or>
     c = CHR 0x1C \<or> c = CHR 0x1D \<or> c = CHR 0x1E \<or> c = CHR 0x1F \<or> c = CHR 0x20 \<or>
     c = CHR 0x85 \<or> c = CHR 0xA0"

definition is_digit :: "char \<Rightarrow> bool" where
  "is_digit c \<longleftrightarrow> c \<in> set ''0123456789''"

text \<open>\<^verbatim>\<open>s.strip()\<close>: white space removed at both ends.\<close>

definition strip :: "string \<Rightarrow> string" where
  "strip s = rev (dropWhile is_space (rev (dropWhile is_space s)))"

text \<open>\<^verbatim>\<open>s.split()\<close>: the maximal runs of characters that are not white space.\<close>

function split_ws :: "string \<Rightarrow> string list" where
  "split_ws [] = []"
| "split_ws (c # cs) =
     (if is_space c then split_ws cs
      else (c # takeWhile (\<lambda>d. \<not> is_space d) cs) # split_ws (dropWhile (\<lambda>d. \<not> is_space d) cs))"
  by pat_completeness auto
termination
  by (relation "measure length") (auto simp: less_Suc_eq_le length_dropWhile_le)

text \<open>\<^verbatim>\<open>len(s.split())\<close>, the word count used for every budget test.\<close>

definition word_count :: "string \<Rightarrow> int" where
  "word_count s = int (length (split_ws s))"

text \<open>\<^verbatim>\<open>s.split('\n')\<close>: always at least one piece.\<close>

fun split_nl :: "string \<Rightarrow> string list" where
  "split_nl [] = [[]]"
| "split_nl (c # cs) =
     (if c = CHR 0x0A then [] # split_nl cs
      else (case split_nl cs of [] \<Rightarrow> [[c]] | l # ls \<Rightarrow> (c # l) # ls))"

text \<open>\<^verbatim>\<open>sep.join(xs)\<close>.\<close>

fun join :: "string \<Rightarrow> string list \<Rightarrow> string" where
  "join sep [] = []"
| "join sep [x] = x"
| "join sep (x # y # ys) = x @ sep @ join sep (y # ys)"

text \<open>\<^verbatim>\<open>s.startswith(p)\<close>.\<close>

definition startswith :: "string \<Rightarrow> string \<Rightarrow> bool" where
  "startswith s p \<longleftrightarrow> take (length p) s = p"

text \<open>\<^verbatim>\<open>x in s\<close> for two strings: \<open>x\<close> occurs in \<open>s\<close> as a contiguous substring.\<close>

fun py_in :: "string \<Rightarrow> string \<Rightarrow> bool" where
  "py_in x [] \<longleftrightarrow> x = []"
| "py_in x (c # cs) \<longleftrightarrow> take (length x) (c # cs) = x \<or> py_in x cs"

section \<open>The regular expressions\<close>

text \<open>
  \<^verbatim>\<open>re.match(r'^\d+\.', s)\<close>: one or more digits and a dot at the start of \<open>s\<close>. The
  digits are matched greedily and a dot is no digit, so the match is decided by the
  longest run of digits.
\<close>

definition match_numbered :: "string \<Rightarrow> bool" where
  "match_numbered s \<longleftrightarrow>
     takeWhile is_digit s \<noteq> [] \<and> take 1 (dropWhile is_digit s) = ''.''"

text \<open>
  The test for a bullet point or a list item, applied by the source to a stripped line:
  \<^verbatim>\<open>stripped.startswith('-') or stripped.startswith('*') or re.match(r'^\d+\.', stripped)\<close>.
\<close>

definition is_bullet :: "string \<Rightarrow> bool" where
  "is_bullet stripped \<longleftrightarrow>
     startswith stripped ''-'' \<or> startswith stripped ''*'' \<or> match_numbered stripped"

text \<open>
  The image pattern \<^verbatim>\<open>!\[\]\(\$(\d+)\$\)\<close> matched at the start of a string: the result
  is the text of group 1 (the digits), and the match is \<open>7 + length ds\<close> characters long.
  After the greedy run of digits the pattern wants a dollar sign, which is no digit, so
  no shorter run of digits can match either. The pattern of the relocator is the same
  without the group.
\<close>

definition match_marker :: "string \<Rightarrow> string option" where
  "match_marker s =
     (if take 5 s = ''![]($'' then
        let ds = takeWhile is_digit (drop 5 s)
        in if ds \<noteq> [] \<and> take 2 (drop (5 + length ds) s) = ''$)'' then Some ds else None
      else None)"

text \<open>
  \<^verbatim>\<open>re.search(image_pattern, s)\<close>: the leftmost match, as \<open>(start, end, group 1)\<close>, or
  \<open>None\<close>.
\<close>

fun search_marker :: "string \<Rightarrow> (nat \<times> nat \<times> string) option" where
  "search_marker [] = None"
| "search_marker (c # cs) =
     (case match_marker (c # cs) of
        Some ds \<Rightarrow> Some (0, 7 + length ds, ds)
      | None \<Rightarrow>
          (case search_marker cs of
             None \<Rightarrow> None
           | Some (s, e, ds) \<Rightarrow> Some (Suc s, Suc e, ds)))"

text \<open>
  \<^verbatim>\<open>re.sub(image_pattern, '', s)\<close>: every match found by one scan from left to right is
  deleted; the scan goes on after the end of each match.
\<close>

function sub_marker :: "string \<Rightarrow> string" where
  "sub_marker [] = []"
| "sub_marker (c # cs) =
     (case match_marker (c # cs) of
        Some ds \<Rightarrow> sub_marker (drop (7 + length ds) (c # cs))
      | None \<Rightarrow> c # sub_marker cs)"
  by pat_completeness auto
termination
  by (relation "measure length") auto

text \<open>\<^verbatim>\<open>re.sub(r'\s+', ' ', s)\<close>: each maximal run of white space becomes one space.\<close>

function collapse_ws :: "string \<Rightarrow> string" where
  "collapse_ws [] = []"
| "collapse_ws (c # cs) =
     (if is_space c then CHR '' '' # collapse_ws (dropWhile is_space cs)
      else c # collapse_ws cs)"
  by pat_completeness auto
termination
  by (relation "measure length") (auto simp: less_Suc_eq_le length_dropWhile_le)

text \<open>
  \<^verbatim>\<open>re.split(r'([.!?])\s+', text)\<close>: the text between the matches, with the text of
  the group of each match between them. \<open>cur\<close> is the text read since the last match.
\<close>

definition is_terminal :: "char \<Rightarrow> bool" where
  "is_terminal c \<longleftrightarrow> c = CHR ''.'' \<or> c = CHR ''!'' \<or> c = CHR ''?''"

function re_split_from :: "string \<Rightarrow> string \<Rightarrow> string list" where
  "re_split_from cur [] = [cur]"
| "re_split_from cur (c # cs) =
     (if is_terminal c \<and> cs \<noteq> [] \<and> is_space (hd cs)
      then cur # [c] # re_split_from [] (dropWhile is_space cs)
      else re_split_from (cur @ [c]) cs)"
  by pat_completeness auto
termination
  by (relation "measure (\<lambda>(cur, s). length s)") (auto simp: less_Suc_eq_le length_dropWhile_le)

definition re_split :: "string \<Rightarrow> string list" where
  "re_split s = re_split_from [] s"

section \<open>Errors\<close>

text \<open>
  The source has no \<^verbatim>\<open>raise\<close> of its own. What can raise in it is an index into a list
  (\<^verbatim>\<open>parts[i]\<close>, \<^verbatim>\<open>parts[i + 1]\<close>, \<^verbatim>\<open>current_block[-1]\<close>) and the conversion
  \<^verbatim>\<open>int(match.group(1))\<close>; each is modelled with its error branch.
\<close>

datatype error = IndexError | ValueError

text \<open>\<^verbatim>\<open>xs[i]\<close>: a negative index counts from the end; out of range raises.\<close>

definition py_index :: "'a list \<Rightarrow> int \<Rightarrow> error + 'a" where
  "py_index xs i =
     (if 0 \<le> i \<and> i < int (length xs) then Inr (xs ! nat i)
      else if i < 0 \<and> - int (length xs) \<le> i then Inr (xs ! nat (int (length xs) + i))
      else Inl IndexError)"

text \<open>The value of a decimal digit, from its code point.\<close>

definition digit_value :: "char \<Rightarrow> int" where
  "digit_value c = int (of_char c) - 48"

text \<open>
  The interpreter refuses to convert a decimal string of more digits than this to an
  integer: \<^verbatim>\<open>sys.int_info.default_max_str_digits\<close>, the limit that \<^verbatim>\<open>int\<close> has by
  default. Leading zeros count as digits.
\<close>

definition max_str_digits :: nat where
  "max_str_digits = 4300"

text \<open>
  \<^verbatim>\<open>int(s)\<close> on a string of decimal digits: the integer, which is unbounded, or
  \<^verbatim>\<open>ValueError\<close> when the string has more than \<open>max_str_digits\<close> digits. The source
  calls it on group 1 of a match only; on a string that is no run of digits the model
  raises (Python accepts a few more forms, such as a sign, which are never passed here).
\<close>

definition py_int :: "string \<Rightarrow> error + int" where
  "py_int s =
     (if s \<noteq> [] \<and> list_all is_digit s
      then (if max_str_digits < length s then Inl ValueError
            else Inr (foldl (\<lambda>acc c. 10 * acc + digit_value c) 0 s))
      else Inl ValueError)"

text \<open>A \<^verbatim>\<open>for\<close> loop whose body can raise: the first error ends the loop.\<close>

fun fold_err :: "('s \<Rightarrow> 'a \<Rightarrow> error + 's) \<Rightarrow> 's \<Rightarrow> 'a list \<Rightarrow> error + 's" where
  "fold_err f s [] = Inr s"
| "fold_err f s (x # xs) = (case f s x of Inl e \<Rightarrow> Inl e | Inr s' \<Rightarrow> fold_err f s' xs)"

section \<open>The Sentence Splitter: \<^verbatim>\<open>split_long_text\<close>\<close>

text \<open>
  The \<^verbatim>\<open>while i < len(parts)\<close> loop that puts each sentence together with its
  punctuation. \<^verbatim>\<open>parts[i + 1] in '.!?'\<close> is Python's substring test.
\<close>

function sentences_loop :: "string list \<Rightarrow> nat \<Rightarrow> string list \<Rightarrow> error + string list" where
  "sentences_loop parts i sentences =
     (if i < length parts then
        (case (if i + 1 < length parts
               then (case py_index parts (int i + 1) of
                       Inl e \<Rightarrow> Inl e
                     | Inr q \<Rightarrow> Inr (py_in q ''.!?''))
               else Inr False) of
           Inl e \<Rightarrow> Inl e
         | Inr b \<Rightarrow>
             if b then
               (case py_index parts (int i) of
                  Inl e \<Rightarrow> Inl e
                | Inr p \<Rightarrow>
                    (case py_index parts (int i + 1) of
                       Inl e \<Rightarrow> Inl e
                     | Inr q \<Rightarrow> sentences_loop parts (i + 2) (sentences @ [p @ q])))
             else
               (case py_index parts (int i) of
                  Inl e \<Rightarrow> Inl e
                | Inr p \<Rightarrow>
                    sentences_loop parts (i + 1)
                      (if strip p \<noteq> [] then sentences @ [p] else sentences)))
      else Inr sentences)"
  by pat_completeness auto
termination
  by (relation "measure (\<lambda>(parts, i, sentences). length parts - i)") auto

declare sentences_loop.simps [simp del]

text \<open>
  The body of \<^verbatim>\<open>for sentence in sentences\<close>; the state is \<^verbatim>\<open>segments\<close>,
  \<^verbatim>\<open>current_segment\<close> and \<^verbatim>\<open>current_word_count\<close>.
\<close>

fun pack_sentence ::
  "int \<Rightarrow> string list \<times> string \<times> int \<Rightarrow> string \<Rightarrow> string list \<times> string \<times> int" where
  "pack_sentence max_words (segments, current_segment, current_word_count) sentence0 =
     (let sentence = strip sentence0 in
      if sentence = [] then (segments, current_segment, current_word_count)
      else
        let sentence_words = word_count sentence in
        if sentence_words > max_words then
          (if current_segment \<noteq> []
           then (segments @ [strip current_segment] @ [sentence], [], 0)
           else (segments @ [sentence], current_segment, current_word_count))
        else if current_word_count + sentence_words > max_words then
          ((if current_segment \<noteq> [] then segments @ [strip current_segment] else segments),
           sentence, sentence_words)
        else
          (segments,
           (if current_segment \<noteq> [] then current_segment @ '' '' @ sentence else sentence),
           current_word_count + sentence_words))"

definition split_long_text :: "string \<Rightarrow> int \<Rightarrow> error + string list" where
  "split_long_text text max_words =
     (case sentences_loop (re_split text) 0 [] of
        Inl e \<Rightarrow> Inl e
      | Inr sentences \<Rightarrow>
          (case foldl (pack_sentence max_words) ([], [], 0) sentences of
             (segments, current_segment, current_word_count) \<Rightarrow>
               Inr (if strip current_segment \<noteq> [] then segments @ [strip current_segment]
                    else segments)))"

section \<open>The Block Grouper\<close>

definition newline :: string where
  "newline = [CHR 0x0A]"

text \<open>
  The body of \<^verbatim>\<open>for line in lines\<close>; the state is \<^verbatim>\<open>blocks\<close> and
  \<^verbatim>\<open>current_block\<close>.
\<close>

fun group_line ::
  "string list \<times> string list \<Rightarrow> string \<Rightarrow> error + (string list \<times> string list)" where
  "group_line (blocks, current_block) line =
     (let stripped = strip line in
      if stripped = [] then
        (if current_block \<noteq> [] then Inr (blocks @ [join newline current_block], [])
         else Inr (blocks, current_block))
      else if startswith stripped ''#'' then
        (if current_block \<noteq> []
         then Inr (blocks @ [join newline current_block] @ [stripped], [])
         else Inr (blocks @ [stripped], current_block))
      else if is_bullet stripped then
        (case (if current_block \<noteq> []
               then (case py_index current_block (- 1) of
                       Inl e \<Rightarrow> Inl e
                     | Inr l \<Rightarrow> Inr (\<not> is_bullet (strip l)))
               else Inr False) of
           Inl e \<Rightarrow> Inl e
         | Inr b \<Rightarrow>
             if b then Inr (blocks @ [join newline current_block], [line])
             else Inr (blocks, current_block @ [line]))
      else Inr (blocks, current_block @ [line]))"

definition group_blocks :: "string \<Rightarrow> error + string list" where
  "group_blocks text =
     (case fold_err group_line ([], []) (split_nl (strip text)) of
        Inl e \<Rightarrow> Inl e
      | Inr (blocks, current_block) \<Rightarrow>
          Inr (if current_block \<noteq> [] then blocks @ [join newline current_block] else blocks))"

section \<open>The Segment Packer\<close>

text \<open>
  The body of \<^verbatim>\<open>for line in lines_in_block\<close> of a block with a bullet line; the state
  is \<^verbatim>\<open>segments\<close>, \<^verbatim>\<open>current_segment\<close> and \<^verbatim>\<open>current_words\<close>.
\<close>

fun pack_line ::
  "int \<Rightarrow> string list \<times> string \<times> int \<Rightarrow> string \<Rightarrow> error + (string list \<times> string \<times> int)" where
  "pack_line max_words (segments, current_segment, current_words) line =
     (let line_words = word_count line in
      if line_words > max_words then
        (case (if current_segment \<noteq> [] then (segments @ [strip current_segment], [], 0)
               else (segments, current_segment, current_words)) of
           (segments1, current_segment1, current_words1) \<Rightarrow>
             (case split_long_text line max_words of
                Inl e \<Rightarrow> Inl e
              | Inr split_line \<Rightarrow> Inr (segments1 @ split_line, current_segment1, current_words1)))
      else if current_words + line_words > max_words then
        Inr ((if current_segment \<noteq> [] then segments @ [strip current_segment] else segments),
             line, line_words)
      else
        Inr (segments,
             (if current_segment \<noteq> [] then current_segment @ newline @ line else line),
             current_words + line_words))"

text \<open>The body of \<^verbatim>\<open>for block in blocks\<close>; the state is \<^verbatim>\<open>segments\<close>.\<close>

definition pack_block :: "int \<Rightarrow> string list \<Rightarrow> string \<Rightarrow> error + string list" where
  "pack_block max_words segments block0 =
     (let block = strip block0 in
      if block = [] then Inr segments
      else if word_count block \<le> max_words then Inr (segments @ [block])
      else
        let lines_in_block = split_nl block in
        if list_ex (\<lambda>l. is_bullet (strip l)) lines_in_block then
          (case fold_err (pack_line max_words) (segments, [], 0) lines_in_block of
             Inl e \<Rightarrow> Inl e
           | Inr (segments1, current_segment, current_words) \<Rightarrow>
               Inr (if strip current_segment \<noteq> [] then segments1 @ [strip current_segment]
                    else segments1))
        else
          (case split_long_text block max_words of
             Inl e \<Rightarrow> Inl e
           | Inr split_text \<Rightarrow> Inr (segments @ split_text)))"

definition pack_blocks :: "int \<Rightarrow> string list \<Rightarrow> error + string list" where
  "pack_blocks max_words blocks = fold_err (pack_block max_words) [] blocks"

section \<open>The Image-Marker Relocator\<close>

text \<open>The body of \<^verbatim>\<open>for segment in segments\<close>; the state is \<^verbatim>\<open>final_segments\<close>.\<close>

definition relocate_segment :: "string list \<Rightarrow> string \<Rightarrow> string list" where
  "relocate_segment final_segments segment =
     (case search_marker segment of
        Some (s, e, ds) \<Rightarrow>
          (let before_and_image = strip (take e segment);
               after_text = strip (drop e segment);
               final_segments1 =
                 (if before_and_image \<noteq> [] then final_segments @ [before_and_image]
                  else final_segments)
           in if after_text \<noteq> [] then final_segments1 @ [after_text] else final_segments1)
      | None \<Rightarrow> final_segments @ [segment])"

definition relocate :: "string list \<Rightarrow> string list" where
  "relocate segments = foldl relocate_segment [] segments"

definition split_markdown_for_video_with_image_split :: "string \<Rightarrow> int \<Rightarrow> error + string list" where
  "split_markdown_for_video_with_image_split text max_words =
     (case group_blocks text of
        Inl e \<Rightarrow> Inl e
      | Inr blocks \<Rightarrow>
          (case pack_blocks max_words blocks of
             Inl e \<Rightarrow> Inl e
           | Inr segments \<Rightarrow> Inr (relocate segments)))"

section \<open>The Segment Classifier: \<^verbatim>\<open>get_script_segments\<close>\<close>

record ScriptSegment =
  text' :: string
  image_index :: "int option"
  has_image :: bool
  raw_text :: string

text \<open>The segment built from one raw segment, before the test that drops empty ones.\<close>

definition classify :: "string \<Rightarrow> error + ScriptSegment" where
  "classify raw =
     (case search_marker raw of
        Some (s, e, ds) \<Rightarrow>
          (case py_int ds of
             Inl err \<Rightarrow> Inl err
           | Inr n \<Rightarrow>
               Inr \<lparr>text' = strip (collapse_ws (strip (sub_marker raw))),
                    image_index = Some n, has_image = True, raw_text = raw\<rparr>)
      | None \<Rightarrow>
          Inr \<lparr>text' = strip (collapse_ws (strip raw)),
               image_index = None, has_image = False, raw_text = raw\<rparr>)"

text \<open>
  The body of \<^verbatim>\<open>for raw_text in raw_segments\<close>; the state is \<^verbatim>\<open>script_segments\<close>.
  The two calls of the logger have no effect on the result and are left out.
\<close>

definition classify_step :: "ScriptSegment list \<Rightarrow> string \<Rightarrow> error + ScriptSegment list" where
  "classify_step script_segments raw =
     (case classify raw of
        Inl e \<Rightarrow> Inl e
      | Inr segment \<Rightarrow>
          Inr (if text' segment \<noteq> [] then script_segments @ [segment] else script_segments))"

definition get_script_segments :: "string \<Rightarrow> int \<Rightarrow> error + ScriptSegment list" where
  "get_script_segments markdown_text max_words =
     (case split_markdown_for_video_with_image_split markdown_text max_words of
        Inl e \<Rightarrow> Inl e
      | Inr raw_segments \<Rightarrow> fold_err classify_step [] raw_segments)"

section \<open>Vocabulary of the properties\<close>

text \<open>The content of a string: its characters that are not white space, in order.\<close>

definition content :: "string \<Rightarrow> string" where
  "content s = filter (\<lambda>c. \<not> is_space c) s"

text \<open>
  The markers of a string: group 1 of the image pattern at every position where the
  pattern matches, from left to right.
\<close>

fun markers :: "string \<Rightarrow> string list" where
  "markers [] = []"
| "markers (c # cs) =
     (case match_marker (c # cs) of Some ds \<Rightarrow> [ds] | None \<Rightarrow> []) @ markers cs"

text \<open>The text of the marker whose group 1 is \<open>ds\<close>.\<close>

definition marker_text :: "string \<Rightarrow> string" where
  "marker_text ds = ''![]($'' @ ds @ ''$)''"

text \<open>
  A sentence boundary, as the Sentence Splitter sees it: one of \<^verbatim>\<open>.!?\<close> with white
  space after it. A string without one is (part of) a single sentence.
\<close>

fun has_boundary :: "string \<Rightarrow> bool" where
  "has_boundary [] \<longleftrightarrow> False"
| "has_boundary (c # cs) \<longleftrightarrow> (is_terminal c \<and> cs \<noteq> [] \<and> is_space (hd cs)) \<or> has_boundary cs"

text \<open>
  The number of words of a string that follows a white space (\<open>b\<close> true) or a character
  of a word (\<open>b\<close> false): a word starts at every character that is not white space and
  follows white space.
\<close>

fun word_starts :: "bool \<Rightarrow> string \<Rightarrow> nat" where
  "word_starts b [] = 0"
| "word_starts b (c # cs) =
     (if is_space c then word_starts True cs
      else (if b then 1 else 0) + word_starts False cs)"

text \<open>
  What the \<^verbatim>\<open>while\<close> loop of the Sentence Splitter computes from the parts that are
  still to be read, by recursion on the list.
\<close>

fun sentences_of :: "string list \<Rightarrow> string list" where
  "sentences_of [] = []"
| "sentences_of [p] = (if strip p \<noteq> [] then [p] else [])"
| "sentences_of (p # q # rest) =
     (if py_in q ''.!?'' then (p @ q) # sentences_of rest
      else (if strip p \<noteq> [] then [p] else []) @ sentences_of (q # rest))"

text \<open>The lines of a block: bullet or numbered lines first, plain lines after them.\<close>

definition bullets_then_plain :: "string list \<Rightarrow> bool" where
  "bullets_then_plain ls \<longleftrightarrow>
     list_all (\<lambda>l. \<not> is_bullet (strip l)) (dropWhile (\<lambda>l. is_bullet (strip l)) ls)"

text \<open>
  What the Block Grouper keeps true of its state while it reads the lines: the lines of
  the current block are not blank and no header lines, every finished block is not empty,
  has its bullet lines first and no blank line, and a block with a header line is that
  one stripped line.
\<close>

definition good_line :: "string \<Rightarrow> bool" where
  "good_line l \<longleftrightarrow> strip l \<noteq> [] \<and> CHR 0x0A \<notin> set l"

definition good_block :: "string \<Rightarrow> bool" where
  "good_block b \<longleftrightarrow>
     b \<noteq> [] \<and> bullets_then_plain (split_nl b) \<and> (\<forall>l\<in>set (split_nl b). strip l \<noteq> []) \<and>
     (list_ex (\<lambda>l. startswith (strip l) ''#'') (split_nl b) \<longrightarrow> split_nl b = [b] \<and> strip b = b)"

definition group_inv :: "string list \<times> string list \<Rightarrow> bool" where
  "group_inv st \<longleftrightarrow>
     (\<forall>b\<in>set (fst st). good_block b) \<and>
     (\<forall>l\<in>set (snd st). good_line l \<and> \<not> startswith (strip l) ''#'') \<and>
     bullets_then_plain (snd st)"

text \<open>
  A segment respects the budget when it has at most \<open>max_words\<close> words or is (part of)
  a single sentence. The two packing loops keep this true of the segments they have
  emitted, and keep the count of the words of the segment they are building.
\<close>

definition within_budget :: "int \<Rightarrow> string \<Rightarrow> bool" where
  "within_budget max_words c \<longleftrightarrow> word_count c \<le> max_words \<or> \<not> has_boundary c"

definition pack_inv :: "int \<Rightarrow> string list \<times> string \<times> int \<Rightarrow> bool" where
  "pack_inv max_words st \<longleftrightarrow>
     (\<forall>c\<in>set (fst st). within_budget max_words c) \<and>
     snd (snd st) = word_count (fst (snd st)) \<and>
     (fst (snd st) \<noteq> [] \<longrightarrow> word_count (fst (snd st)) \<le> max_words)"

text \<open>
  The texts that the Segment Packer hands to the Sentence Splitter for a block: the
  block is over the budget, and \<open>t\<close> is the stripped block, or, when the block has a
  bullet line, a line of the block that is over the budget.
\<close>

definition splitter_input :: "int \<Rightarrow> string \<Rightarrow> string \<Rightarrow> bool" where
  "splitter_input max_words block t \<longleftrightarrow>
     strip block \<noteq> [] \<and> max_words < word_count (strip block) \<and>
     (if list_ex (\<lambda>l. is_bullet (strip l)) (split_nl (strip block))
      then t \<in> set (split_nl (strip block)) \<and> max_words < word_count t
      else t = strip block)"

text \<open>
  For every match of the image pattern in a string, from left to right: whether the
  match ends a word, that is, the string ends after it or goes on with white space.
\<close>

definition ends_word :: "string \<Rightarrow> bool" where
  "ends_word rest \<longleftrightarrow> rest = [] \<or> is_space (hd rest)"

fun marker_ends :: "string \<Rightarrow> bool list" where
  "marker_ends [] = []"
| "marker_ends (c # cs) =
     (case match_marker (c # cs) of
        Some ds \<Rightarrow> [ends_word (drop (7 + length ds) (c # cs))]
      | None \<Rightarrow> []) @ marker_ends cs"

text \<open>
  A reading \<open>h\<close> of a string as a list (its markers, its words) that every stage before
  the relocator keeps: white space alone gives nothing, and where a string is cut at
  white space, the list of the whole is the lists of the two parts, one after the other.
\<close>

definition space_additive :: "(string \<Rightarrow> 'a list) \<Rightarrow> bool" where
  "space_additive h \<longleftrightarrow>
     (\<forall>c. is_space c \<longrightarrow> h [c] = []) \<and>
     (\<forall>a b. a = [] \<or> b = [] \<or> is_space (last a) \<or> is_space (hd b) \<longrightarrow>
        h (a @ b) = h a @ h b)"

lemma is_space_simps [simp]:
  "is_space (CHR 0x0A)" "is_space (CHR '' '')" "\<not> is_space (CHR ''!'')" "\<not> is_space (CHR ''['')"
  "\<not> is_space (CHR '']'')" "\<not> is_space (CHR ''('')" "\<not> is_space (CHR ''$'')" "\<not> is_space (CHR '')'')"
  "\<not> is_space (CHR ''.'')" "\<not> is_space (CHR ''?'')" "\<not> is_space (CHR ''#'')"
  by (simp_all add: is_space_def)

lemma is_digit_not_space: "is_digit c \<Longrightarrow> \<not> is_space c"
  by (auto simp: is_digit_def is_space_def)

lemma is_terminal_not_space: "is_terminal c \<Longrightarrow> \<not> is_space c"
  by (auto simp: is_terminal_def is_space_def)

lemma content_append [simp]: "content (a @ b) = content a @ content b"
  by (simp add: content_def)

lemma content_Nil [simp]: "content [] = []"
  by (simp add: content_def)

lemma content_Cons: "content (c # cs) = (if is_space c then content cs else c # content cs)"
  by (simp add: content_def)

lemma content_dropWhile [simp]: "content (dropWhile is_space s) = content s"
  by (induction s) (auto simp: content_def)

lemma content_rev: "content (rev s) = rev (content s)"
  by (simp add: content_def rev_filter)

lemma content_strip [simp]: "content (strip s) = content s"
  by (simp add: strip_def content_rev)

lemma content_empty_iff: "content s = [] \<longleftrightarrow> (\<forall>c\<in>set s. is_space c)"
  by (auto simp: content_def filter_empty_conv)

lemma strip_empty_iff: "strip s = [] \<longleftrightarrow> content s = []"
proof -
  have "strip s = [] \<longleftrightarrow> dropWhile is_space (rev (dropWhile is_space s)) = []"
    by (simp add: strip_def)
  also have "\<dots> \<longleftrightarrow> (\<forall>c\<in>set (dropWhile is_space s). is_space c)"
    by (simp only: dropWhile_eq_Nil_conv set_rev)
  also have "\<dots> \<longleftrightarrow> dropWhile is_space s = []"
  proof
    assume a: "\<forall>c\<in>set (dropWhile is_space s). is_space c"
    show "dropWhile is_space s = []"
    proof (rule ccontr)
      assume n: "dropWhile is_space s \<noteq> []"
      from hd_dropWhile [OF n] hd_in_set [OF n] a show False by blast
    qed
  next
    assume "dropWhile is_space s = []"
    then show "\<forall>c\<in>set (dropWhile is_space s). is_space c" by (metis empty_iff empty_set)
  qed
  also have "\<dots> \<longleftrightarrow> content s = []"
    by (simp only: dropWhile_eq_Nil_conv content_empty_iff)
  finally show ?thesis .
qed

lemma strip_Nil [simp]: "strip [] = []"
  by (simp add: strip_def)

text \<open>A string is its stripped form between two runs of white space.\<close>

lemma strip_decomp:
  "\<exists>a b. s = a @ strip s @ b \<and> (\<forall>c\<in>set a. is_space c) \<and> (\<forall>c\<in>set b. is_space c)"
proof -
  let ?a = "takeWhile is_space s"
  let ?m = "dropWhile is_space s"
  let ?b = "rev (takeWhile is_space (rev ?m))"
  have "rev ?m = takeWhile is_space (rev ?m) @ dropWhile is_space (rev ?m)" by simp
  then have "?m = rev (dropWhile is_space (rev ?m)) @ ?b"
    by (metis rev_append rev_rev_ident)
  then have "s = ?a @ strip s @ ?b"
    by (metis strip_def takeWhile_dropWhile_id)
  moreover have "\<forall>c\<in>set ?a. is_space c" by (auto dest: set_takeWhileD)
  moreover have "\<forall>c\<in>set ?b. is_space c" by (auto dest: set_takeWhileD)
  ultimately show ?thesis by blast
qed

lemma last_dropWhile: "dropWhile P xs \<noteq> [] \<Longrightarrow> last (dropWhile P xs) = last xs"
  by (induction xs) (auto split: if_splits)

lemma strip_ends:
  assumes "strip s \<noteq> []"
  shows "\<not> is_space (hd (strip s))" and "\<not> is_space (last (strip s))"
proof -
  let ?m = "dropWhile is_space s"
  from assms have ne: "dropWhile is_space (rev ?m) \<noteq> []" by (simp add: strip_def)
  then have "\<not> is_space (hd (dropWhile is_space (rev ?m)))" by (rule hd_dropWhile)
  then show "\<not> is_space (last (strip s))"
    using ne by (simp add: strip_def last_rev)
  from ne have m: "?m \<noteq> []" by (cases "?m = []") simp_all
  then have h: "\<not> is_space (hd ?m)" by (rule hd_dropWhile)
  have "hd (strip s) = last (dropWhile is_space (rev ?m))"
    using ne by (simp add: strip_def hd_rev)
  also have "\<dots> = last (rev ?m)" using ne by (rule last_dropWhile)
  also have "\<dots> = hd ?m" using m by (simp add: last_rev)
  finally show "\<not> is_space (hd (strip s))" using h by simp
qed

lemma strip_idem [simp]: "strip (strip s) = strip s"
proof (cases "strip s = []")
  case True
  then show ?thesis by simp
next
  case False
  then have h: "\<not> is_space (hd (strip s))" and l: "\<not> is_space (last (strip s))"
    by (rule strip_ends)+
  from False h have 1: "dropWhile is_space (strip s) = strip s"
    by (cases "strip s") auto
  from False l have 2: "dropWhile is_space (rev (strip s)) = rev (strip s)"
    by (cases "strip s" rule: rev_cases) auto
  show ?thesis
    by (subst strip_def) (simp add: 1 2)
qed


subsection \<open>Counting words\<close>

lemma word_starts_skip_word:
  "word_starts False cs = word_starts True (dropWhile (\<lambda>d. \<not> is_space d) cs)"
  by (induction cs) auto

lemma length_split_ws: "length (split_ws s) = word_starts True s"
  by (induction s rule: split_ws.induct) (auto simp: word_starts_skip_word)

lemma word_count_starts: "word_count s = int (word_starts True s)"
  by (simp add: word_count_def length_split_ws)

lemma word_starts_append:
  "word_starts b (xs @ ys) =
     word_starts b xs + word_starts (if xs = [] then b else is_space (last xs)) ys"
  by (induction xs arbitrary: b) auto

lemma word_starts_flag: "word_starts False s \<le> word_starts True s"
  "word_starts True s \<le> Suc (word_starts False s)"
  by (induction s) auto

lemma word_starts_spaces: "\<forall>c\<in>set a. is_space c \<Longrightarrow> word_starts b a = 0"
  by (induction a arbitrary: b) auto

lemma word_starts_zero_iff: "word_starts True s = 0 \<longleftrightarrow> content s = []"
  by (induction s) (auto simp: content_Cons)

lemma word_starts_after_spaces:
  "\<forall>c\<in>set a. is_space c \<Longrightarrow> a \<noteq> [] \<Longrightarrow> word_starts b (a @ m) = word_starts True m"
  by (simp add: word_starts_append word_starts_spaces)

lemma word_starts_before_spaces:
  "\<forall>c\<in>set a. is_space c \<Longrightarrow> word_starts b (m @ a) = word_starts b m"
  by (simp add: word_starts_append word_starts_spaces)

lemma word_starts_strip: "word_starts True (strip s) = word_starts True s"
proof -
  obtain a b where s: "s = a @ strip s @ b" and a: "\<forall>c\<in>set a. is_space c"
    and b: "\<forall>c\<in>set b. is_space c"
    using strip_decomp by blast
  have "word_starts True (a @ strip s @ b) = word_starts True (strip s @ b)"
    using a by (cases "a = []") (simp_all add: word_starts_after_spaces)
  also have "\<dots> = word_starts True (strip s)"
    using b by (rule word_starts_before_spaces)
  finally show ?thesis using s by simp
qed

lemma word_count_strip [simp]: "word_count (strip s) = word_count s"
  by (simp add: word_count_starts word_starts_strip)

lemma word_count_Nil [simp]: "word_count [] = 0"
  by (simp add: word_count_def)

lemma word_count_nonneg [simp]: "0 \<le> word_count s"
  by (simp add: word_count_def)

lemma word_count_zero_iff: "word_count s = 0 \<longleftrightarrow> content s = []"
  by (simp add: word_count_starts word_starts_zero_iff)

lemma word_starts_pos: "content s \<noteq> [] \<Longrightarrow> 0 < word_starts True s"
  using word_starts_zero_iff [of s] by simp

lemma word_count_pos: "strip s \<noteq> [] \<Longrightarrow> 1 \<le> word_count s"
  using word_starts_pos [of s] by (simp add: word_count_starts strip_empty_iff)

lemma word_count_join2:
  assumes "sep \<noteq> []" "\<forall>c\<in>set sep. is_space c"
  shows "word_count (x @ sep @ y) = word_count x + word_count y"
proof -
  have "word_starts True (x @ sep @ y) = word_starts True x + word_starts True y"
    using assms by (simp add: word_starts_append [of _ x] word_starts_after_spaces)
  then show ?thesis by (simp add: word_count_starts)
qed

lemma word_starts_prefix_le: "word_starts b xs \<le> word_starts b (xs @ ys)"
  by (simp add: word_starts_append)

lemma word_starts_suffix_le: "word_starts True ys \<le> word_starts True (xs @ ys)"
proof (cases "xs = [] \<or> is_space (last xs)")
  case True
  then show ?thesis by (auto simp: word_starts_append)
next
  case False
  then have "last xs \<in> set xs" "\<not> is_space (last xs)" by auto
  then have "content xs \<noteq> []" by (auto simp: content_empty_iff)
  then have "0 < word_starts True xs" by (rule word_starts_pos)
  moreover have "word_starts True ys \<le> Suc (word_starts False ys)" by (rule word_starts_flag)
  ultimately show ?thesis using False by (simp add: word_starts_append)
qed

lemma word_count_take_le: "word_count (take n s) \<le> word_count s"
  using word_starts_prefix_le [of True "take n s" "drop n s"] by (simp add: word_count_starts)

lemma word_count_drop_le: "word_count (drop n s) \<le> word_count s"
  using word_starts_suffix_le [of "drop n s" "take n s"] by (simp add: word_count_starts)

lemma word_starts_dropWhile_space: "word_starts True (dropWhile is_space s) = word_starts True s"
  by (induction s) auto

lemma word_starts_collapse: "word_starts b (collapse_ws s) = word_starts b s"
  by (induction s arbitrary: b rule: collapse_ws.induct)
     (auto simp: word_starts_dropWhile_space)

lemma word_count_collapse [simp]: "word_count (collapse_ws s) = word_count s"
  by (simp add: word_count_starts word_starts_collapse)

subsection \<open>The image pattern\<close>

lemma not_digit_dollar [simp]: "\<not> is_digit (CHR ''$'')"
  by (simp add: is_digit_def)

lemma marker_text_length [simp]: "length (marker_text ds) = 7 + length ds"
  by (simp add: marker_text_def)

lemma match_marker_Nil [simp]: "match_marker [] = None"
  by (simp add: match_marker_def)

lemma drop_5_plus: "drop (5 + n) s = drop n (drop 5 s)"
  by (simp add: add.commute)

lemma match_marker_SomeD:
  assumes "match_marker s = Some ds"
  shows "s = marker_text ds @ drop (7 + length ds) s" and "ds \<noteq> []" and "list_all is_digit ds"
proof -
  from assms have t5: "take 5 s = ''![]($''" and ds: "ds = takeWhile is_digit (drop 5 s)"
    and ne: "ds \<noteq> []" and t2: "take 2 (drop (5 + length ds) s) = ''$)''"
    by (auto simp: match_marker_def Let_def split: if_splits)
  show "ds \<noteq> []" by (rule ne)
  show "list_all is_digit ds" unfolding ds list_all_iff by (auto dest: set_takeWhileD)
  have "ds = take (length ds) (drop 5 s)"
    unfolding ds by (simp add: takeWhile_eq_take [symmetric])
  then have d5: "drop 5 s = ds @ drop (5 + length ds) s"
    unfolding drop_5_plus by (metis append_take_drop_id)
  have "drop 2 (drop (5 + length ds) s) = drop (7 + length ds) s"
    by simp
  then have "drop (5 + length ds) s = ''$)'' @ drop (7 + length ds) s"
    using t2 append_take_drop_id [of 2 "drop (5 + length ds) s"] by simp
  with d5 have "drop 5 s = ds @ ''$)'' @ drop (7 + length ds) s" by simp
  then have "take 5 s @ drop 5 s = ''![]($'' @ ds @ ''$)'' @ drop (7 + length ds) s"
    using t5 by simp
  then show "s = marker_text ds @ drop (7 + length ds) s"
    by (simp add: marker_text_def)
qed

lemma match_marker_SomeI:
  assumes "ds \<noteq> []" "list_all is_digit ds"
  shows "match_marker (marker_text ds @ rest) = Some ds"
proof -
  have "takeWhile is_digit (ds @ ''$)'' @ rest) = ds"
    using assms(2) by (simp add: takeWhile_append2 list_all_iff)
  then show ?thesis
    using assms(1) by (simp add: match_marker_def marker_text_def drop_5_plus)
qed

lemma match_marker_iff:
  "match_marker s = Some ds \<longleftrightarrow>
     ds \<noteq> [] \<and> list_all is_digit ds \<and> prefix (marker_text ds) s"
proof
  assume "match_marker s = Some ds"
  from match_marker_SomeD [OF this] show "ds \<noteq> [] \<and> list_all is_digit ds \<and> prefix (marker_text ds) s"
    by (metis prefixI)
next
  assume "ds \<noteq> [] \<and> list_all is_digit ds \<and> prefix (marker_text ds) s"
  then show "match_marker s = Some ds"
    by (auto simp: prefix_def match_marker_SomeI)
qed

lemma marker_text_no_space:
  "list_all is_digit ds \<Longrightarrow> c \<in> set (marker_text ds) \<Longrightarrow> \<not> is_space c"
  by (auto simp: marker_text_def list_all_iff is_digit_not_space)

lemma match_marker_hd: "match_marker (c # cs) = Some ds \<Longrightarrow> c = CHR ''!''"
  by (auto simp: match_marker_def split: if_splits)

lemma match_marker_space [simp]: "is_space c \<Longrightarrow> match_marker (c # cs) = None"
  by (cases "match_marker (c # cs)") (auto dest: match_marker_hd)

lemma match_marker_unique:
  "match_marker s = Some ds \<Longrightarrow> match_marker s = Some ds' \<Longrightarrow> ds = ds'"
  by simp

text \<open>A match only reads the characters it matches.\<close>

lemma match_marker_mono: "prefix a s \<Longrightarrow> match_marker a = Some ds \<Longrightarrow> match_marker s = Some ds"
  unfolding match_marker_iff by (auto intro: prefix_order.trans)

lemma match_marker_take: "match_marker (take n s) = Some ds \<Longrightarrow> match_marker s = Some ds"
  by (rule match_marker_mono [OF take_is_prefix])

lemma match_marker_before_space:
  assumes "b = [] \<or> is_space (hd b)"
  shows "match_marker (a @ b) = match_marker a"
proof (cases "match_marker (a @ b)")
  case None
  then show ?thesis
    using match_marker_mono [of a "a @ b"] by (cases "match_marker a") auto
next
  case (Some ds)
  then have ds: "ds \<noteq> []" "list_all is_digit ds" and p: "prefix (marker_text ds) (a @ b)"
    by (simp_all add: match_marker_iff)
  from p have "prefix (marker_text ds) a \<or> (\<exists>u. u \<noteq> [] \<and> prefix u b \<and> marker_text ds = a @ u)"
    by (auto simp: prefix_append) 
  then have "prefix (marker_text ds) a"
  proof
    assume "\<exists>u. u \<noteq> [] \<and> prefix u b \<and> marker_text ds = a @ u"
    then obtain u where u: "u \<noteq> []" "prefix u b" "marker_text ds = a @ u" by blast
    then have "hd u = hd b" "b \<noteq> []" by (auto simp: prefix_def)
    with assms have "is_space (hd u)" by simp
    moreover have "hd u \<in> set (marker_text ds)" using u by simp
    ultimately show ?thesis using marker_text_no_space [OF ds(2)] by blast
  qed
  with ds have "match_marker a = Some ds" by (simp add: match_marker_iff)
  with Some show ?thesis by simp
qed

text \<open>Inside a match no other match begins: the pattern holds one exclamation mark.\<close>

lemma is_digit_not_bang: "is_digit c \<Longrightarrow> c \<noteq> CHR ''!''"
  by (auto simp: is_digit_def)

lemma marker_text_tail_no_bang:
  assumes "list_all is_digit ds" "0 < i" "i < 7 + length ds"
  shows "marker_text ds ! i \<noteq> CHR ''!''"
proof -
  obtain j where j: "i = Suc j" using assms(2) by (cases i) auto
  let ?t = "''[]($'' @ ds @ ''$)''"
  have "marker_text ds ! i = ?t ! j"
    by (simp add: marker_text_def j)
  moreover have "j < length ?t" using assms(3) j by simp
  then have "?t ! j \<in> set ?t" by (rule nth_mem)
  moreover have "\<forall>c\<in>set ?t. c \<noteq> CHR ''!''"
    using assms(1) by (auto simp: list_all_iff dest: is_digit_not_bang)
  ultimately show ?thesis by metis
qed

lemma match_marker_inside:
  assumes "list_all is_digit ds" "0 < i" "i < 7 + length ds"
  shows "match_marker (drop i (marker_text ds @ rest)) = None"
proof -
  have d: "drop i (marker_text ds @ rest) = drop i (marker_text ds) @ rest"
    using assms(3) by simp
  have "i < length (marker_text ds)" using assms(3) by simp
  then have "drop i (marker_text ds) = marker_text ds ! i # drop (Suc i) (marker_text ds)"
    by (rule Cons_nth_drop_Suc [symmetric])
  with d have "drop i (marker_text ds @ rest) =
      marker_text ds ! i # (drop (Suc i) (marker_text ds) @ rest)" by simp
  moreover have "marker_text ds ! i \<noteq> CHR ''!''"
    using assms by (rule marker_text_tail_no_bang)
  ultimately show ?thesis
    by (cases "match_marker (drop i (marker_text ds @ rest))") (auto dest: match_marker_hd)
qed

subsection \<open>The leftmost match\<close>

lemma search_marker_SomeD:
  "search_marker s = Some (p, e, ds) \<Longrightarrow>
     match_marker (drop p s) = Some ds \<and> (\<forall>i<p. match_marker (drop i s) = None) \<and>
     e = p + 7 + length ds"
proof (induction s arbitrary: p e)
  case Nil
  then show ?case by simp
next
  case (Cons c cs)
  show ?case
  proof (cases "match_marker (c # cs)")
    case (Some ds')
    with Cons.prems show ?thesis by auto
  next
    case None
    with Cons.prems obtain p' e' where s: "search_marker cs = Some (p', e', ds)"
      and p: "p = Suc p'" and e: "e = Suc e'"
      by (auto split: option.splits)
    from Cons.IH [OF s] have "match_marker (drop p' cs) = Some ds"
      and "\<forall>i<p'. match_marker (drop i cs) = None" and "e' = p' + 7 + length ds"
      by simp_all
    with None p e show ?thesis
      by (auto simp: less_Suc_eq_0_disj)
  qed
qed

lemma search_marker_NoneD: "search_marker s = None \<Longrightarrow> match_marker (drop i s) = None"
proof (induction s arbitrary: i)
  case Nil
  then show ?case by simp
next
  case (Cons c cs)
  then show ?case
    by (cases i) (auto split: option.splits)
qed

lemma search_marker_SomeI:
  "match_marker (drop p s) = Some ds \<Longrightarrow> \<forall>i<p. match_marker (drop i s) = None \<Longrightarrow>
     search_marker s = Some (p, p + 7 + length ds, ds)"
proof (induction s arbitrary: p)
  case Nil
  then show ?case by simp
next
  case (Cons c cs)
  show ?case
  proof (cases p)
    case 0
    with Cons.prems show ?thesis by simp
  next
    case (Suc p')
    with Cons.prems have "match_marker (c # cs) = None" by auto
    moreover from Cons.prems Suc have "match_marker (drop p' cs) = Some ds"
      and "\<forall>i<p'. match_marker (drop i cs) = None" by auto
    then have "search_marker cs = Some (p', p' + 7 + length ds, ds)" by (rule Cons.IH)
    ultimately show ?thesis using Suc by simp
  qed
qed

lemma match_marker_length:
  assumes "match_marker s = Some ds" shows "7 + length ds \<le> length s"
proof -
  from match_marker_SomeD(1) [OF assms]
  have "length s = length (marker_text ds @ drop (7 + length ds) s)" by simp
  then show ?thesis by simp
qed

lemma search_marker_end_le:
  assumes "search_marker s = Some (p, e, ds)" shows "e \<le> length s"
proof -
  from search_marker_SomeD [OF assms] have m: "match_marker (drop p s) = Some ds"
    and e: "e = p + 7 + length ds" by simp_all
  from match_marker_length [OF m] e show ?thesis by simp
qed

lemma search_marker_split:
  assumes "search_marker s = Some (p, e, ds)"
  shows "s = take p s @ marker_text ds @ drop e s" and "take e s = take p s @ marker_text ds"
proof -
  from search_marker_SomeD [OF assms] have m: "match_marker (drop p s) = Some ds"
    and e: "e = p + 7 + length ds" by simp_all
  from match_marker_SomeD(1) [OF m] have d: "drop p s = marker_text ds @ drop e s"
    by (simp add: e add.commute add.left_commute)
  have "take p s @ drop p s = take p s @ marker_text ds @ drop e s"
    by (simp only: d [symmetric])
  then show 1: "s = take p s @ marker_text ds @ drop e s" by simp
  from match_marker_length [OF m] have "p \<le> length s" by simp
  define X where "X = take p s @ marker_text ds"
  have l: "length X = e" using \<open>p \<le> length s\<close> by (simp add: X_def e)
  have "X @ drop e s = s" using 1 by (simp add: X_def)
  then have "X = take (length X) s" by (simp only: append_eq_conv_conj)
  then have "take e s = X" by (simp only: l)
  then show "take e s = take p s @ marker_text ds" by (simp only: X_def)
qed

subsection \<open>The markers of a string\<close>

lemma markers_mem: "ds \<in> set (markers s) \<longleftrightarrow> (\<exists>i. match_marker (drop i s) = Some ds)"
proof (induction s)
  case Nil
  then show ?case by simp
next
  case (Cons c cs)
  have "(\<exists>i. match_marker (drop i (c # cs)) = Some ds) \<longleftrightarrow>
        match_marker (c # cs) = Some ds \<or> (\<exists>j. match_marker (drop j cs) = Some ds)"
  proof
    assume "\<exists>i. match_marker (drop i (c # cs)) = Some ds"
    then obtain i where i: "match_marker (drop i (c # cs)) = Some ds" ..
    then show "match_marker (c # cs) = Some ds \<or> (\<exists>j. match_marker (drop j cs) = Some ds)"
      by (cases i) auto
  next
    assume "match_marker (c # cs) = Some ds \<or> (\<exists>j. match_marker (drop j cs) = Some ds)"
    then show "\<exists>i. match_marker (drop i (c # cs)) = Some ds"
    proof
      assume "match_marker (c # cs) = Some ds"
      then have "match_marker (drop 0 (c # cs)) = Some ds" by simp
      then show ?thesis ..
    next
      assume "\<exists>j. match_marker (drop j cs) = Some ds"
      then obtain j where "match_marker (drop (Suc j) (c # cs)) = Some ds" by auto
      then show ?thesis ..
    qed
  qed
  with Cons.IH show ?case by (auto split: option.splits)
qed

lemma markers_Nil_iff: "markers s = [] \<longleftrightarrow> (\<forall>i. match_marker (drop i s) = None)"
proof -
  have "markers s = [] \<longleftrightarrow> (\<forall>ds. ds \<notin> set (markers s))" by (cases "markers s") auto
  also have "\<dots> \<longleftrightarrow> (\<forall>i. match_marker (drop i s) = None)"
    unfolding markers_mem by (metis not_Some_eq)
  finally show ?thesis .
qed

lemma markers_append_nomatch:
  "\<forall>i<length xs. match_marker (drop i (xs @ ys)) = None \<Longrightarrow> markers (xs @ ys) = markers ys"
proof (induction xs)
  case Nil
  then show ?case by simp
next
  case (Cons x xs)
  from Cons.prems have "match_marker (drop 0 ((x # xs) @ ys)) = None" by blast
  then have 0: "match_marker (x # xs @ ys) = None" by simp
  have "\<forall>i<length xs. match_marker (drop i (xs @ ys)) = None"
  proof (intro allI impI)
    fix i assume "i < length xs"
    then have "Suc i < length (x # xs)" by simp
    with Cons.prems have "match_marker (drop (Suc i) ((x # xs) @ ys)) = None" by blast
    then show "match_marker (drop i (xs @ ys)) = None" by simp
  qed
  then have "markers (xs @ ys) = markers ys" by (rule Cons.IH)
  with 0 show ?case by simp
qed

lemma markers_spaces_prefix: "\<forall>c\<in>set a. is_space c \<Longrightarrow> markers (a @ s) = markers s"
  by (induction a) auto

lemma markers_spaces_suffix: "\<forall>c\<in>set b. is_space c \<Longrightarrow> markers (s @ b) = markers s"
proof (induction s)
  case Nil
  then show ?case using markers_spaces_prefix [of b "[]"] by simp
next
  case (Cons c s)
  from Cons.prems have "b = [] \<or> is_space (hd b)" by (cases b) auto
  then have "match_marker ((c # s) @ b) = match_marker (c # s)"
    by (rule match_marker_before_space)
  with Cons show ?case by simp
qed

lemma markers_strip [simp]: "markers (strip s) = markers s"
proof -
  obtain a b where s: "s = a @ strip s @ b" and a: "\<forall>c\<in>set a. is_space c"
    and b: "\<forall>c\<in>set b. is_space c"
    using strip_decomp by blast
  have "markers (a @ strip s @ b) = markers (strip s @ b)"
    using a by (rule markers_spaces_prefix)
  also have "\<dots> = markers (strip s)" using b by (rule markers_spaces_suffix)
  finally show ?thesis using s by simp
qed

lemma marker_text_Cons: "marker_text ds = CHR ''!'' # tl (marker_text ds)"
  by (simp add: marker_text_def)

lemma markers_marker_text:
  assumes "ds \<noteq> []" "list_all is_digit ds"
  shows "markers (marker_text ds @ rest) = ds # markers rest"
proof -
  let ?t = "tl (marker_text ds)"
  have m: "marker_text ds @ rest = CHR ''!'' # (?t @ rest)"
    by (simp add: marker_text_def)
  have "\<forall>i<length ?t. match_marker (drop i (?t @ rest)) = None"
  proof (intro allI impI)
    fix i assume "i < length ?t"
    then have "0 < Suc i" "Suc i < 7 + length ds" by simp_all
    with assms(2) have "match_marker (drop (Suc i) (marker_text ds @ rest)) = None"
      by (rule match_marker_inside)
    then show "match_marker (drop i (?t @ rest)) = None"
      by (simp only: m drop_Suc_Cons)
  qed
  then have "markers (?t @ rest) = markers rest" by (rule markers_append_nomatch)
  moreover have "match_marker (CHR ''!'' # (?t @ rest)) = Some ds"
    using match_marker_SomeI [OF assms, of rest] by (simp only: m)
  ultimately have "markers (CHR ''!'' # (?t @ rest)) = ds # markers rest" by simp
  then show ?thesis by (simp only: m)
qed

lemma markers_search:
  assumes "search_marker s = Some (p, e, ds)"
  shows "markers s = ds # markers (drop e s)" and "markers (take e s) = [ds]"
proof -
  from search_marker_SomeD [OF assms] have m: "match_marker (drop p s) = Some ds"
    and least: "\<forall>i<p. match_marker (drop i s) = None" by simp_all
  from match_marker_SomeD [OF m] have ds: "ds \<noteq> []" "list_all is_digit ds" by simp_all
  note sp = search_marker_split [OF assms]
  have "\<forall>i<length (take p s). match_marker (drop i (take p s @ marker_text ds @ drop e s)) = None"
    using least sp(1) by simp
  then have "markers (take p s @ marker_text ds @ drop e s) = markers (marker_text ds @ drop e s)"
    by (rule markers_append_nomatch)
  then show "markers s = ds # markers (drop e s)"
    using sp(1) markers_marker_text [OF ds, of "drop e s"] by simp
  have "\<forall>i<length (take p s). match_marker (drop i (take p s @ marker_text ds)) = None"
  proof (intro allI impI)
    fix i assume i: "i < length (take p s)"
    show "match_marker (drop i (take p s @ marker_text ds)) = None"
    proof (cases "match_marker (drop i (take p s @ marker_text ds))")
      case None
      then show ?thesis .
    next
      case (Some x)
      then have "match_marker (take (e - i) (drop i s)) = Some x"
        by (simp only: sp(2) [symmetric] drop_take)
      then have "match_marker (drop i s) = Some x" by (rule match_marker_take)
      with least i show ?thesis by simp
    qed
  qed
  then have "markers (take p s @ marker_text ds) = markers (marker_text ds)"
    by (rule markers_append_nomatch)
  then show "markers (take e s) = [ds]"
    using sp(2) markers_marker_text [OF ds, of "[]"] by simp
qed

lemma search_marker_None_iff: "search_marker s = None \<longleftrightarrow> markers s = []"
proof
  assume "search_marker s = None"
  then show "markers s = []" by (simp add: markers_Nil_iff search_marker_NoneD)
next
  assume "markers s = []"
  then show "search_marker s = None"
    by (cases "search_marker s") (auto dest: markers_search(1))
qed

subsection \<open>The relocator as a map over the segments\<close>

lemma relocate_segment_append:
  "relocate_segment final_segments segment = final_segments @ relocate_segment [] segment"
  by (simp add: relocate_segment_def Let_def split: option.splits)

lemma foldl_relocate_segment:
  "foldl relocate_segment acc segments = acc @ concat (map (relocate_segment []) segments)"
proof (induction segments arbitrary: acc)
  case Nil
  then show ?case by simp
next
  case (Cons x xs)
  show ?case
    by (simp add: Cons.IH relocate_segment_append [of acc x])
qed

lemma relocate_map: "relocate segments = concat (map (relocate_segment []) segments)"
  by (simp add: relocate_def foldl_relocate_segment)

lemma relocate_append: "relocate (xs @ ys) = relocate xs @ relocate ys"
  by (simp add: relocate_map)

lemma relocate_single_None: "search_marker seg = None \<Longrightarrow> relocate [seg] = [seg]"
  by (simp add: relocate_map relocate_segment_def)

lemma strip_take_marker_nonempty:
  assumes "search_marker seg = Some (p, e, ds)" shows "strip (take e seg) \<noteq> []"
proof -
  from markers_search(2) [OF assms] have 1: "markers (strip (take e seg)) = [ds]" by simp
  show ?thesis
  proof
    assume "strip (take e seg) = []"
    then have "markers (strip (take e seg)) = []" by (simp only: markers.simps)
    with 1 show False by simp
  qed
qed

lemma relocate_single_Some:
  assumes "search_marker seg = Some (p, e, ds)"
  shows "relocate [seg] =
     strip (take e seg) # (if strip (drop e seg) \<noteq> [] then [strip (drop e seg)] else [])"
  using assms strip_take_marker_nonempty [OF assms]
  by (simp add: relocate_map relocate_segment_def Let_def)

subsection \<open>Loops that can raise\<close>

lemma fold_err_total:
  "(\<And>s x. x \<in> set xs \<Longrightarrow> \<exists>s'. f s x = Inr s') \<Longrightarrow> \<exists>s'. fold_err f s xs = Inr s'"
proof (induction xs arbitrary: s)
  case Nil
  then show ?case by simp
next
  case (Cons x xs)
  from Cons.prems [of x s] obtain s1 where s1: "f s x = Inr s1" by auto
  have "\<exists>s'. fold_err f s1 xs = Inr s'"
    by (rule Cons.IH) (simp add: Cons.prems)
  with s1 show ?case by simp
qed

lemma fold_err_invariant:
  assumes "fold_err f s xs = Inr s'" and "I s"
    and "\<And>s x s'. x \<in> set xs \<Longrightarrow> I s \<Longrightarrow> f s x = Inr s' \<Longrightarrow> I s'"
  shows "I s'"
  using assms
proof (induction xs arbitrary: s)
  case Nil
  then show ?case by simp
next
  case (Cons x xs)
  from Cons.prems(1) obtain s1 where s1: "f s x = Inr s1" and r: "fold_err f s1 xs = Inr s'"
    by (auto split: sum.splits)
  from Cons.prems(2) s1 have "I s1" by (rule Cons.prems(3) [of x, simplified])
  with r show ?case
    by (rule Cons.IH) (rule Cons.prems(3), simp_all)
qed

lemma foldl_invariant:
  assumes "I s" and "\<And>s x. x \<in> set xs \<Longrightarrow> I s \<Longrightarrow> I (f s x)"
  shows "I (foldl f s xs)"
  using assms by (induction xs arbitrary: s) auto

subsection \<open>Indexing stays in range\<close>

lemma py_index_nat: "i < length xs \<Longrightarrow> py_index xs (int i) = Inr (xs ! i)"
  by (simp add: py_index_def)

lemma py_index_nat_Suc: "Suc i < length xs \<Longrightarrow> py_index xs (int i + 1) = Inr (xs ! Suc i)"
  using py_index_nat [of "Suc i" xs] by (simp add: add.commute)

lemma py_index_last: "xs \<noteq> [] \<Longrightarrow> py_index xs (- 1) = Inr (last xs)"
proof -
  assume ne: "xs \<noteq> []"
  then have l: "1 \<le> length xs" by (cases xs) simp_all
  then have "nat (int (length xs) + - 1) = length xs - 1" by simp
  moreover have "- int (length xs) \<le> - 1" using l by simp
  ultimately show ?thesis using ne by (simp add: py_index_def last_conv_nth)
qed

lemma sentences_loop_eq:
  "i \<le> length parts \<Longrightarrow>
     sentences_loop parts i acc = Inr (acc @ sentences_of (drop i parts))"
proof (induction "length parts - i" arbitrary: i acc rule: less_induct)
  case less
  show ?case
  proof (cases "i < length parts")
    case False
    with less.prems show ?thesis by (subst sentences_loop.simps) simp
  next
    case i: True
    then have di: "drop i parts = parts ! i # drop (Suc i) parts"
      by (rule Cons_nth_drop_Suc [symmetric])
    show ?thesis
    proof (cases "Suc i < length parts")
      case False
      with i have "drop (Suc i) parts = []" by simp
      moreover have "sentences_loop parts (i + 1) acc' = Inr (acc' @ sentences_of (drop (i + 1) parts))"
        for acc' using i by (intro less.hyps) auto
      ultimately show ?thesis
        using i False di
        by (subst sentences_loop.simps) (simp add: py_index_nat)
    next
      case si: True
      then have dsi: "drop (Suc i) parts = parts ! Suc i # drop (i + 2) parts"
        using Cons_nth_drop_Suc [of "Suc i" parts] by simp
      have r1: "sentences_loop parts (i + 1) acc' = Inr (acc' @ sentences_of (drop (i + 1) parts))"
        for acc' using i by (intro less.hyps) auto
      have r2: "sentences_loop parts (i + 2) acc' = Inr (acc' @ sentences_of (drop (i + 2) parts))"
        for acc' using si by (intro less.hyps) auto
      show ?thesis
        using i si r1 r2
        by (subst sentences_loop.simps) (simp add: py_index_nat py_index_nat_Suc di dsi)
    qed
  qed
qed

lemma split_long_text_eq:
  "split_long_text text max_words =
     Inr (case foldl (pack_sentence max_words) ([], [], 0) (sentences_of (re_split text)) of
            (segments, current_segment, current_word_count) \<Rightarrow>
              if strip current_segment \<noteq> [] then segments @ [strip current_segment]
              else segments)"
  by (simp add: split_long_text_def sentences_loop_eq split: prod.splits)

lemma split_long_text_total: "\<exists>r. split_long_text text max_words = Inr r"
  by (simp add: split_long_text_eq)

lemma group_line_total: "\<exists>st'. group_line st line = Inr st'"
  by (cases st) (simp add: Let_def py_index_last)

lemma group_blocks_total: "\<exists>blocks. group_blocks text = Inr blocks"
proof -
  obtain st where "fold_err group_line ([], []) (split_nl (strip text)) = Inr st"
    using fold_err_total [of _ group_line] group_line_total by blast
  then show ?thesis by (cases st) (simp add: group_blocks_def)
qed

lemma pack_line_total: "\<exists>st'. pack_line max_words st line = Inr st'"
proof -
  obtain r where "split_long_text line max_words = Inr r"
    using split_long_text_total by blast
  then show ?thesis by (cases st) (simp add: Let_def)
qed

lemma pack_block_total: "\<exists>segments'. pack_block max_words segments block = Inr segments'"
proof -
  obtain r where r: "split_long_text (strip block) max_words = Inr r"
    using split_long_text_total by blast
  obtain st where st: "fold_err (pack_line max_words) (segments, [], 0) (split_nl (strip block)) = Inr st"
    using fold_err_total [of _ "pack_line max_words"] pack_line_total by blast
  show ?thesis
    using r st by (cases st) (simp add: pack_block_def Let_def)
qed

lemma pack_blocks_total: "\<exists>segments. pack_blocks max_words blocks = Inr segments"
  unfolding pack_blocks_def
  using fold_err_total [of _ "pack_block max_words"] pack_block_total by blast

lemma split_markdown_total:
  "\<exists>segments. split_markdown_for_video_with_image_split text max_words = Inr segments"
proof -
  obtain blocks where b: "group_blocks text = Inr blocks" using group_blocks_total by blast
  obtain segments where "pack_blocks max_words blocks = Inr segments"
    using pack_blocks_total by blast
  with b show ?thesis by (simp add: split_markdown_for_video_with_image_split_def)
qed

lemma py_int_digits:
  "ds \<noteq> [] \<Longrightarrow> list_all is_digit ds \<Longrightarrow> length ds \<le> max_str_digits \<Longrightarrow>
     \<exists>n. py_int ds = Inr n"
  by (simp add: py_int_def)

lemma py_int_long:
  "max_str_digits < length ds \<Longrightarrow> py_int ds = Inl ValueError"
  by (simp add: py_int_def)

lemma py_int_error: "py_int ds = Inl e \<Longrightarrow> e = ValueError"
  by (auto simp: py_int_def split: if_splits)

lemma search_marker_digits:
  assumes "search_marker s = Some (p, e, ds)" shows "ds \<noteq> []" "list_all is_digit ds"
  using match_marker_SomeD(2,3) [of "drop p s" ds] search_marker_SomeD [OF assms] by simp_all

text \<open>The classifier raises exactly when the first marker of the segment is too long.\<close>

lemma classify_total:
  assumes "markers raw = [] \<or> length (hd (markers raw)) \<le> max_str_digits"
  shows "\<exists>x. classify raw = Inr x"
proof (cases "search_marker raw")
  case None
  then show ?thesis by (simp add: classify_def)
next
  case (Some m)
  obtain p e ds where m: "m = (p, e, ds)" by (cases m)
  with Some have s: "search_marker raw = Some (p, e, ds)" by simp
  from markers_search(1) [OF s] assms have "length ds \<le> max_str_digits" by simp
  with search_marker_digits [OF s] obtain n where "py_int ds = Inr n"
    using py_int_digits by blast
  with s show ?thesis by (simp add: classify_def)
qed

lemma classify_error:
  assumes "classify raw = Inl e"
  shows "e = ValueError" and "markers raw \<noteq> []"
    and "max_str_digits < length (hd (markers raw))"
proof -
  from assms obtain p e' ds where s: "search_marker raw = Some (p, e', ds)"
    and i: "py_int ds = Inl e"
    by (auto simp: classify_def split: option.splits sum.splits)
  from i show "e = ValueError" by (rule py_int_error)
  from markers_search(1) [OF s] have m: "markers raw = ds # markers (drop e' raw)" .
  then show "markers raw \<noteq> []" by simp
  from i search_marker_digits [OF s] have "max_str_digits < length ds"
    by (auto simp: py_int_def split: if_splits)
  with m show "max_str_digits < length (hd (markers raw))" by simp
qed

lemma classify_long:
  assumes "markers raw \<noteq> []" "max_str_digits < length (hd (markers raw))"
  shows "classify raw = Inl ValueError"
proof -
  from assms(1) obtain p e ds where s: "search_marker raw = Some (p, e, ds)"
    using search_marker_None_iff [of raw] by (cases "search_marker raw") auto
  from markers_search(1) [OF s] assms(2) have "max_str_digits < length ds" by simp
  then have "py_int ds = Inl ValueError" by (rule py_int_long)
  with s show ?thesis by (simp add: classify_def)
qed

lemma classify_step_result:
  "classify_step segs raw = (case classify raw of Inl e \<Rightarrow> Inl e | Inr x \<Rightarrow>
     Inr (if text' x \<noteq> [] then segs @ [x] else segs))"
  by (simp add: classify_step_def)

lemma fold_classify_total:
  assumes "\<forall>raw\<in>set raws. markers raw = [] \<or> length (hd (markers raw)) \<le> max_str_digits"
  shows "\<exists>segs. fold_err classify_step acc raws = Inr segs"
proof (rule fold_err_total)
  fix s x
  assume "x \<in> set raws"
  with assms obtain y where "classify x = Inr y" using classify_total by blast
  then show "\<exists>s'. classify_step s x = Inr s'" by (simp add: classify_step_def)
qed

lemma fold_classify_error:
  "fold_err classify_step acc raws = Inl e \<Longrightarrow>
     e = ValueError \<and> (\<exists>raw\<in>set raws. markers raw \<noteq> [] \<and> max_str_digits < length (hd (markers raw)))"
proof (induction raws arbitrary: acc)
  case Nil
  then show ?case by simp
next
  case (Cons raw raws)
  show ?case
  proof (cases "classify raw")
    case (Inl e')
    then have "classify_step acc raw = Inl e'" by (simp add: classify_step_def)
    with Cons.prems have "e' = e" by simp
    with Inl classify_error [of raw e] show ?thesis by simp
  next
    case (Inr x)
    then have "classify_step acc raw = Inr (if text' x \<noteq> [] then acc @ [x] else acc)"
      by (simp add: classify_step_def)
    with Cons.prems have "fold_err classify_step (if text' x \<noteq> [] then acc @ [x] else acc) raws = Inl e"
      by simp
    from Cons.IH [OF this] show ?thesis by auto
  qed
qed

lemma fold_classify_long:
  "raw \<in> set raws \<Longrightarrow> markers raw \<noteq> [] \<Longrightarrow> max_str_digits < length (hd (markers raw)) \<Longrightarrow>
     fold_err classify_step acc raws = Inl ValueError"
proof (induction raws arbitrary: acc)
  case Nil
  then show ?case by simp
next
  case (Cons y raws)
  show ?case
  proof (cases "classify y")
    case (Inl e)
    then have "classify_step acc y = Inl e" by (simp add: classify_step_def)
    with classify_error(1) [OF Inl] show ?thesis by simp
  next
    case (Inr x)
    then have st: "classify_step acc y = Inr (if text' x \<noteq> [] then acc @ [x] else acc)"
      by (simp add: classify_step_def)
    from Inr Cons.prems classify_long [of raw] have "raw \<in> set raws" by auto
    from Cons.IH [OF this Cons.prems(2,3)] st show ?thesis by simp
  qed
qed

lemma get_script_segments_empty: "get_script_segments [] max_words = Inr []"
  by (simp add: get_script_segments_def split_markdown_for_video_with_image_split_def
      group_blocks_def pack_blocks_def relocate_def Let_def)

subsection \<open>The classifier\<close>

lemma classify_raw_text: "classify raw = Inr x \<Longrightarrow> raw_text x = raw"
  by (auto simp: classify_def split: option.splits sum.splits)

lemma classify_fold_set:
  "fold_err classify_step acc raws = Inr segs \<Longrightarrow>
     set segs = set acc \<union> {x. \<exists>raw\<in>set raws. classify raw = Inr x \<and> text' x \<noteq> []}"
proof (induction raws arbitrary: acc)
  case Nil
  then show ?case by simp
next
  case (Cons raw raws)
  from Cons.prems obtain acc1 where s: "classify_step acc raw = Inr acc1"
    and r: "fold_err classify_step acc1 raws = Inr segs"
    by (auto split: sum.splits)
  from s obtain x where x: "classify raw = Inr x"
    and acc1: "acc1 = (if text' x \<noteq> [] then acc @ [x] else acc)"
    by (auto simp: classify_step_def split: sum.splits)
  from Cons.IH [OF r] x acc1 show ?case by auto
qed

lemma get_script_segments_mem:
  assumes "get_script_segments markdown_text max_words = Inr segs"
  shows "\<exists>raws. split_markdown_for_video_with_image_split markdown_text max_words = Inr raws \<and>
     set segs = {x. raw_text x \<in> set raws \<and> classify (raw_text x) = Inr x \<and> text' x \<noteq> []}"
proof -
  from assms obtain raws where
    r: "split_markdown_for_video_with_image_split markdown_text max_words = Inr raws"
    and f: "fold_err classify_step [] raws = Inr segs"
    by (auto simp: get_script_segments_def split: sum.splits)
  from classify_fold_set [OF f]
  have "set segs = {x. raw_text x \<in> set raws \<and> classify (raw_text x) = Inr x \<and> text' x \<noteq> []}"
    by (auto simp: classify_raw_text)
  with r show ?thesis by blast
qed

lemma classify_None:
  "search_marker raw = None \<Longrightarrow> classify raw = Inr x \<Longrightarrow>
     text' x = strip (collapse_ws (strip raw)) \<and> image_index x = None \<and> \<not> has_image x"
  by (auto simp: classify_def)

lemma classify_Some:
  "search_marker raw = Some (p, e, ds) \<Longrightarrow> classify raw = Inr x \<Longrightarrow>
     text' x = strip (collapse_ws (strip (sub_marker raw))) \<and>
     (\<exists>n. py_int ds = Inr n \<and> image_index x = Some n) \<and> has_image x"
  by (auto simp: classify_def split: sum.splits)

subsection \<open>The value of a run of digits\<close>

lemma digit_value_digit: "is_digit c \<Longrightarrow> 0 \<le> digit_value c \<and> (digit_value c = 0 \<longleftrightarrow> c = CHR ''0'')"
  by (auto simp: is_digit_def digit_value_def)

lemma foldl_digits_pos:
  "0 \<le> a \<Longrightarrow> list_all is_digit ds \<Longrightarrow>
     0 \<le> foldl (\<lambda>acc c. 10 * acc + digit_value c) a ds \<and>
     (0 < foldl (\<lambda>acc c. 10 * acc + digit_value c) a ds \<longleftrightarrow> 0 < a \<or> (\<exists>c\<in>set ds. c \<noteq> CHR ''0''))"
proof (induction ds arbitrary: a)
  case Nil
  then show ?case by simp
next
  case (Cons c ds)
  from Cons.prems have c: "0 \<le> digit_value c" "digit_value c = 0 \<longleftrightarrow> c = CHR ''0''"
    and ds: "list_all is_digit ds"
    using digit_value_digit [of c] by simp_all
  from c(1) Cons.prems(1) have a': "0 \<le> 10 * a + digit_value c" by simp
  have "0 < 10 * a + digit_value c \<longleftrightarrow> 0 < a \<or> c \<noteq> CHR ''0''"
    using c Cons.prems(1) by auto
  with Cons.IH [OF a' ds] show ?case by auto
qed

lemma py_int_value:
  assumes "py_int ds = Inr n"
  shows "0 \<le> n" and "0 < n \<longleftrightarrow> (\<exists>c\<in>set ds. c \<noteq> CHR ''0'')"
proof -
  from assms have d: "list_all is_digit ds"
    and n: "n = foldl (\<lambda>acc c. 10 * acc + digit_value c) 0 ds"
    by (auto simp: py_int_def split: if_splits)
  from foldl_digits_pos [OF order_refl d] n
  show "0 \<le> n" and "0 < n \<longleftrightarrow> (\<exists>c\<in>set ds. c \<noteq> CHR ''0'')" by simp_all
qed

subsection \<open>Deleting the markers\<close>

lemma sub_marker_append_nomatch:
  "\<forall>i<length xs. match_marker (drop i (xs @ ys)) = None \<Longrightarrow>
     sub_marker (xs @ ys) = xs @ sub_marker ys"
proof (induction xs)
  case Nil
  then show ?case by simp
next
  case (Cons x xs)
  from Cons.prems have "match_marker (drop 0 ((x # xs) @ ys)) = None" by blast
  then have 0: "match_marker (x # xs @ ys) = None" by simp
  have "\<forall>i<length xs. match_marker (drop i (xs @ ys)) = None"
  proof (intro allI impI)
    fix i assume "i < length xs"
    then have "Suc i < length (x # xs)" by simp
    with Cons.prems have "match_marker (drop (Suc i) ((x # xs) @ ys)) = None" by blast
    then show "match_marker (drop i (xs @ ys)) = None" by simp
  qed
  then have "sub_marker (xs @ ys) = xs @ sub_marker ys" by (rule Cons.IH)
  with 0 show ?case by simp
qed

lemma sub_marker_marker_text:
  assumes "ds \<noteq> []" "list_all is_digit ds"
  shows "sub_marker (marker_text ds @ rest) = sub_marker rest"
proof -
  have m: "marker_text ds @ rest = CHR ''!'' # (tl (marker_text ds) @ rest)"
    by (simp add: marker_text_def)
  have "match_marker (CHR ''!'' # (tl (marker_text ds) @ rest)) = Some ds"
    using match_marker_SomeI [OF assms, of rest] by (simp only: m)
  then have "sub_marker (CHR ''!'' # (tl (marker_text ds) @ rest)) =
      sub_marker (drop (7 + length ds) (CHR ''!'' # (tl (marker_text ds) @ rest)))"
    by simp
  then show ?thesis by (simp add: m [symmetric])
qed

lemma sub_marker_search:
  assumes "search_marker s = Some (p, e, ds)"
  shows "sub_marker s = take p s @ sub_marker (drop e s)"
proof -
  from search_marker_SomeD [OF assms] have least: "\<forall>i<p. match_marker (drop i s) = None"
    by simp
  note ds = search_marker_digits [OF assms]
  note sp = search_marker_split(1) [OF assms]
  have "\<forall>i<length (take p s). match_marker (drop i (take p s @ marker_text ds @ drop e s)) = None"
    using least sp by simp
  then have "sub_marker (take p s @ marker_text ds @ drop e s) =
      take p s @ sub_marker (marker_text ds @ drop e s)"
    by (rule sub_marker_append_nomatch)
  then show ?thesis
    using sp sub_marker_marker_text [OF ds, of "drop e s"] by simp
qed

lemma markers_before_first:
  assumes "search_marker s = Some (p, e, ds)"
  shows "markers (take p s) = []"
  unfolding markers_Nil_iff
proof
  fix i
  from search_marker_SomeD [OF assms] have least: "\<forall>i<p. match_marker (drop i s) = None"
    by simp
  show "match_marker (drop i (take p s)) = None"
  proof (cases "match_marker (drop i (take p s))")
    case None
    then show ?thesis .
  next
    case (Some x)
    then have "drop i (take p s) \<noteq> []" by auto
    then have i: "i < p" by (cases "i < p") simp_all
    from Some have "match_marker (take (p - i) (drop i s)) = Some x"
      by (simp only: drop_take)
    then have "match_marker (drop i s) = Some x" by (rule match_marker_take)
    with least i show ?thesis by simp
  qed
qed

lemma prefix_collapse_ws:
  "prefix m (collapse_ws s) \<Longrightarrow> \<forall>x\<in>set m. \<not> is_space x \<Longrightarrow> prefix m s"
proof (induction s arbitrary: m rule: collapse_ws.induct)
  case 1
  then show ?case by simp
next
  case (2 c cs)
  show ?case
  proof (cases m)
    case Nil
    then show ?thesis by simp
  next
    case (Cons x m')
    show ?thesis
    proof (cases "is_space c")
      case True
      with "2.prems" Cons show ?thesis by auto
    next
      case False
      with "2.prems" Cons have "x = c" "prefix m' (collapse_ws cs)" "\<forall>x\<in>set m'. \<not> is_space x"
        by auto
      with "2.IH"(2) [OF False] Cons show ?thesis by simp
    qed
  qed
qed

lemma match_marker_collapse_ws:
  "match_marker (drop j (collapse_ws s)) = Some ds \<Longrightarrow> \<exists>i. match_marker (drop i s) = Some ds"
proof (induction s arbitrary: j rule: collapse_ws.induct)
  case 1
  then show ?case by simp
next
  case (2 c cs)
  show ?case
  proof (cases j)
    case 0
    with "2.prems" have m: "match_marker (collapse_ws (c # cs)) = Some ds" by simp
    then have ns: "\<not> is_space c" by (cases "is_space c") auto
    from m have ds: "ds \<noteq> []" "list_all is_digit ds" and p: "prefix (marker_text ds) (collapse_ws (c # cs))"
      unfolding match_marker_iff by blast+
    from p have "prefix (marker_text ds) (c # cs)"
      by (rule prefix_collapse_ws) (use ds in \<open>auto dest: marker_text_no_space\<close>)
    with ds have "match_marker (drop 0 (c # cs)) = Some ds" by (simp add: match_marker_iff)
    then show ?thesis ..
  next
    case (Suc j')
    show ?thesis
    proof (cases "is_space c")
      case True
      with "2.prems" Suc have "match_marker (drop j' (collapse_ws (dropWhile is_space cs))) = Some ds"
        by simp
      from "2.IH"(1) [OF True this] obtain i where
        "match_marker (drop i (dropWhile is_space cs)) = Some ds" ..
      then have "match_marker (drop (Suc (i + length (takeWhile is_space cs))) (c # cs)) = Some ds"
        by (simp add: dropWhile_eq_drop)
      then show ?thesis ..
    next
      case False
      with "2.prems" Suc have "match_marker (drop j' (collapse_ws cs)) = Some ds" by simp
      from "2.IH"(2) [OF False this] obtain i where "match_marker (drop i cs) = Some ds" ..
      then have "match_marker (drop (Suc i) (c # cs)) = Some ds" by simp
      then show ?thesis ..
    qed
  qed
qed

lemma markers_collapse_ws: "markers s = [] \<Longrightarrow> markers (collapse_ws s) = []"
  unfolding markers_Nil_iff
  by (metis match_marker_collapse_ws not_Some_eq)

lemma markers_normalised: "markers s = [] \<Longrightarrow> markers (strip (collapse_ws (strip s))) = []"
  by (simp add: markers_collapse_ws)

lemma prefix_into_collapse_ws:
  "prefix m s \<Longrightarrow> \<forall>x\<in>set m. \<not> is_space x \<Longrightarrow> prefix m (collapse_ws s)"
proof (induction m arbitrary: s)
  case Nil
  then show ?case by simp
next
  case (Cons x m)
  from Cons.prems(1) obtain s' where s: "s = x # s'" and p: "prefix m s'" by (cases s) auto
  from Cons.prems have "\<not> is_space x" "\<forall>x\<in>set m. \<not> is_space x" by simp_all
  with Cons.IH [OF p] s show ?case by simp
qed

lemma match_marker_collapse_Cons:
  assumes "\<not> is_space c"
  shows "match_marker (c # collapse_ws cs) = match_marker (c # cs)"
proof -
  have c: "collapse_ws (c # cs) = c # collapse_ws cs" using assms by simp
  have iff: "match_marker (c # collapse_ws cs) = Some ds \<longleftrightarrow> match_marker (c # cs) = Some ds" for ds
  proof (cases "ds \<noteq> [] \<and> list_all is_digit ds")
    case True
    then have ns: "\<forall>x\<in>set (marker_text ds). \<not> is_space x"
      by (auto dest: marker_text_no_space)
    have "prefix (marker_text ds) (collapse_ws (c # cs)) \<longleftrightarrow> prefix (marker_text ds) (c # cs)"
      using ns prefix_collapse_ws prefix_into_collapse_ws by blast
    with True show ?thesis by (simp only: match_marker_iff c)
  next
    case False
    then show ?thesis by (auto simp: match_marker_iff)
  qed
  show ?thesis
  proof (cases "match_marker (c # cs)")
    case None
    have "match_marker (c # collapse_ws cs) = None"
    proof (rule ccontr)
      assume "match_marker (c # collapse_ws cs) \<noteq> None"
      then obtain ds where "match_marker (c # collapse_ws cs) = Some ds" by blast
      with iff [of ds] None show False by simp
    qed
    with None show ?thesis by simp
  next
    case (Some ds)
    with iff [of ds] show ?thesis by simp
  qed
qed

lemma markers_collapse_ws_eq [simp]: "markers (collapse_ws s) = markers s"
proof (induction s rule: collapse_ws.induct)
  case 1
  then show ?case by simp
next
  case (2 c cs)
  show ?case
  proof (cases "is_space c")
    case True
    have "c # cs = (c # takeWhile is_space cs) @ dropWhile is_space cs" by simp
    moreover have "\<forall>x\<in>set (c # takeWhile is_space cs). is_space x"
      using True by (auto dest: set_takeWhileD)
    ultimately have "markers (c # cs) = markers (dropWhile is_space cs)"
      using markers_spaces_prefix by metis
    with True "2.IH"(1) show ?thesis by simp
  next
    case False
    with "2.IH"(2) match_marker_collapse_Cons [OF False, of cs] show ?thesis by simp
  qed
qed

lemma markers_normalised_eq: "markers (strip (collapse_ws (strip s))) = markers s"
  by simp

text \<open>A match that begins where no marker lies before it is the leftmost match.\<close>

lemma first_marker_least:
  assumes none: "markers (take p s) = []" and m: "match_marker (drop p s) = Some ds"
  shows "\<forall>i<p. match_marker (drop i s) = None"
proof (intro allI impI)
  fix i assume i: "i < p"
  show "match_marker (drop i s) = None"
  proof (cases "match_marker (drop i s)")
    case None
    then show ?thesis .
  next
    case (Some ds')
    note d = match_marker_SomeD [OF Some]
    show ?thesis
    proof (cases "i + 7 + length ds' \<le> p")
      case True
      have "prefix (marker_text ds') (drop i s)" using d(1) by (metis prefixI)
      then have "prefix (take (p - i) (marker_text ds')) (take (p - i) (drop i s))"
        by (auto simp: prefix_def)
      moreover have "take (p - i) (marker_text ds') = marker_text ds'" using True by simp
      ultimately have "prefix (marker_text ds') (drop i (take p s))"
        by (simp add: drop_take)
      with d(2,3) have "match_marker (drop i (take p s)) = Some ds'"
        by (simp add: match_marker_iff)
      with none show ?thesis by (simp add: markers_Nil_iff)
    next
      case False
      with i have k: "0 < p - i" "p - i < 7 + length ds'" by simp_all
      have "drop p s = drop (p - i) (drop i s)" using i by simp
      also have "\<dots> = drop (p - i) (marker_text ds' @ drop (7 + length ds') (drop i s))"
        using d(1) by simp
      finally have "drop p s = drop (p - i) (marker_text ds' @ drop (7 + length ds') (drop i s))" .
      then have "match_marker (drop p s) = None"
        by (simp only: match_marker_inside [OF d(3) k])
      with m show ?thesis by simp
    qed
  qed
qed

lemma search_marker_first:
  assumes "markers (take p s) = []" and "match_marker (drop p s) = Some ds"
  shows "search_marker s = Some (p, p + 7 + length ds, ds)"
  using assms(2) first_marker_least [OF assms] by (rule search_marker_SomeI)

lemma markers_strip_empty: "strip s = [] \<Longrightarrow> markers s = []"
  by (metis markers.simps(1) markers_strip)

lemma relocate_segment_markers:
  "concat (map markers (relocate [seg])) = markers seg"
proof (cases "search_marker seg")
  case None
  then show ?thesis by (simp add: relocate_single_None)
next
  case (Some m)
  obtain p e ds where m: "m = (p, e, ds)" by (cases m)
  with Some have s: "search_marker seg = Some (p, e, ds)" by simp
  from markers_search [OF s] show ?thesis
    by (simp add: relocate_single_Some [OF s] markers_strip_empty)
qed

subsection \<open>Lines and blocks\<close>

lemma split_nl_nonempty [simp]: "split_nl s \<noteq> []"
  by (induction s) (auto split: list.splits)

lemma split_nl_no_newline: "l \<in> set (split_nl s) \<Longrightarrow> CHR 0x0A \<notin> set l"
proof (induction s arbitrary: l)
  case Nil
  then show ?case by simp
next
  case (Cons c cs)
  then show ?case
    by (cases "split_nl cs") (auto split: if_splits)
qed

lemma split_nl_no_newline_id: "CHR 0x0A \<notin> set l \<Longrightarrow> split_nl l = [l]"
  by (induction l) auto

lemma split_nl_append_newline:
  "CHR 0x0A \<notin> set l \<Longrightarrow> split_nl (l @ CHR 0x0A # s) = l # split_nl s"
  by (induction l) auto

lemma split_nl_join_sep:
  "sep = newline \<Longrightarrow> ls \<noteq> [] \<Longrightarrow> \<forall>l\<in>set ls. CHR 0x0A \<notin> set l \<Longrightarrow>
     split_nl (join sep ls) = ls"
  by (induction sep ls rule: join.induct)
     (auto simp: split_nl_no_newline_id newline_def split_nl_append_newline)

lemma split_nl_join:
  "ls \<noteq> [] \<Longrightarrow> \<forall>l\<in>set ls. CHR 0x0A \<notin> set l \<Longrightarrow> split_nl (join newline ls) = ls"
  by (rule split_nl_join_sep [OF refl])

lemma set_strip_subset: "set (strip s) \<subseteq> set s"
proof -
  obtain a b where "s = a @ strip s @ b" using strip_decomp by blast
  then have "set s = set a \<union> set (strip s) \<union> set b"
    by (metis set_append sup_assoc)
  then show ?thesis by blast
qed

lemma join_nonempty: "ls \<noteq> [] \<Longrightarrow> hd ls \<noteq> [] \<Longrightarrow> join sep ls \<noteq> []"
  by (induction sep ls rule: join.induct) auto

subsection \<open>Bullet lines first\<close>

lemma bullets_then_plain_Nil [simp]: "bullets_then_plain []"
  by (simp add: bullets_then_plain_def)

lemma bullets_then_plain_single [simp]: "bullets_then_plain [l]"
  by (simp add: bullets_then_plain_def)

lemma bullets_then_plain_snoc_plain:
  assumes "bullets_then_plain cb" "\<not> is_bullet (strip line)"
  shows "bullets_then_plain (cb @ [line])"
proof (cases "\<forall>l\<in>set cb. is_bullet (strip l)")
  case True
  then have "dropWhile (\<lambda>l. is_bullet (strip l)) (cb @ [line]) =
      dropWhile (\<lambda>l. is_bullet (strip l)) [line]"
    by (simp only: dropWhile_append2)
  with assms(2) show ?thesis by (simp add: bullets_then_plain_def)
next
  case False
  then obtain x where "x \<in> set cb" "\<not> is_bullet (strip x)" by blast
  then have "dropWhile (\<lambda>l. is_bullet (strip l)) (cb @ [line]) =
      dropWhile (\<lambda>l. is_bullet (strip l)) cb @ [line]"
    by (rule dropWhile_append1)
  with assms show ?thesis by (simp add: bullets_then_plain_def)
qed

lemma bullets_then_plain_all_bullets:
  assumes "bullets_then_plain cb" "cb \<noteq> []" "is_bullet (strip (last cb))"
  shows "dropWhile (\<lambda>l. is_bullet (strip l)) cb = []"
proof (rule ccontr)
  assume ne: "dropWhile (\<lambda>l. is_bullet (strip l)) cb \<noteq> []"
  then have eq: "last (dropWhile (\<lambda>l. is_bullet (strip l)) cb) = last cb" by (rule last_dropWhile)
  have mem: "last (dropWhile (\<lambda>l. is_bullet (strip l)) cb) \<in> set (dropWhile (\<lambda>l. is_bullet (strip l)) cb)"
    using ne by (rule last_in_set)
  from assms(1) have "\<forall>l\<in>set (dropWhile (\<lambda>l. is_bullet (strip l)) cb). \<not> is_bullet (strip l)"
    by (simp only: bullets_then_plain_def list_all_iff)
  with mem have "\<not> is_bullet (strip (last (dropWhile (\<lambda>l. is_bullet (strip l)) cb)))" by blast
  with assms(3) eq show False by metis
qed

lemma bullets_then_plain_snoc_after_bullet:
  assumes "bullets_then_plain cb" "cb = [] \<or> is_bullet (strip (last cb))"
  shows "bullets_then_plain (cb @ [line])"
proof (cases "cb = []")
  case True
  then show ?thesis by simp
next
  case False
  with assms have "is_bullet (strip (last cb))" by blast
  with assms(1) False have "dropWhile (\<lambda>l. is_bullet (strip l)) cb = []"
    by (rule bullets_then_plain_all_bullets)
  then have "\<forall>l\<in>set cb. is_bullet (strip l)" by (simp only: dropWhile_eq_Nil_conv)
  then have "dropWhile (\<lambda>l. is_bullet (strip l)) (cb @ [line]) =
      dropWhile (\<lambda>l. is_bullet (strip l)) [line]"
    by (simp only: dropWhile_append2)
  then show ?thesis by (simp add: bullets_then_plain_def)
qed

subsection \<open>The blocks of the grouper\<close>

lemma good_block_join:
  assumes "cb \<noteq> []" "\<forall>l\<in>set cb. good_line l \<and> \<not> startswith (strip l) ''#''"
    "bullets_then_plain cb"
  shows "good_block (join newline cb)"
proof -
  from assms(2) have nl: "\<forall>l\<in>set cb. CHR 0x0A \<notin> set l" by (simp add: good_line_def)
  with assms(1) have s: "split_nl (join newline cb) = cb" by (rule split_nl_join)
  from assms(1,2) have "strip (hd cb) \<noteq> []" by (simp add: good_line_def)
  then have "hd cb \<noteq> []" by auto
  with assms(1) have "join newline cb \<noteq> []" by (rule join_nonempty)
  with s assms show ?thesis
    by (auto simp: good_block_def good_line_def list_ex_iff)
qed

lemma good_block_header:
  assumes "CHR 0x0A \<notin> set line" "strip line \<noteq> []"
  shows "good_block (strip line)"
proof -
  from assms(1) set_strip_subset [of line] have "CHR 0x0A \<notin> set (strip line)" by blast
  then have "split_nl (strip line) = [strip line]" by (rule split_nl_no_newline_id)
  with assms(2) show ?thesis by (simp add: good_block_def)
qed

lemma group_line_inv:
  assumes "group_line st line = Inr st'" "group_inv st" "CHR 0x0A \<notin> set line"
  shows "group_inv st'"
proof -
  obtain blocks cb where st: "st = (blocks, cb)" by (cases st)
  from assms(2) st have b: "\<forall>b\<in>set blocks. good_block b"
    and l: "\<forall>l\<in>set cb. good_line l \<and> \<not> startswith (strip l) ''#''"
    and p: "bullets_then_plain cb"
    by (simp_all add: group_inv_def)
  have flush: "cb \<noteq> [] \<Longrightarrow> good_block (join newline cb)"
    using l p by (intro good_block_join)
  show ?thesis
  proof (cases "strip line = []")
    case True
    with assms(1) st
    have "st' = (if cb \<noteq> [] then (blocks @ [join newline cb], []) else (blocks, cb))"
      by (auto simp: Let_def)
    with b l p flush show ?thesis by (auto simp: group_inv_def)
  next
    case ne: False
    then have gl: "good_line line" using assms(3) by (simp add: good_line_def)
    show ?thesis
    proof (cases "startswith (strip line) ''#''")
      case True
      with ne assms(1) st
      have "st' = (if cb \<noteq> [] then (blocks @ [join newline cb, strip line], [])
                   else (blocks @ [strip line], cb))"
        by (auto simp: Let_def)
      with b l p flush good_block_header [OF assms(3) ne] show ?thesis
        by (auto simp: group_inv_def)
    next
      case nh: False
      show ?thesis
      proof (cases "is_bullet (strip line)")
        case True
        show ?thesis
        proof (cases "cb \<noteq> [] \<and> \<not> is_bullet (strip (last cb))")
          case True
          with ne nh \<open>is_bullet (strip line)\<close> assms(1) st
          have "st' = (blocks @ [join newline cb], [line])"
            by (simp add: py_index_last Let_def)
          with True b flush gl nh show ?thesis by (simp add: group_inv_def)
        next
          case False
          with ne nh \<open>is_bullet (strip line)\<close> assms(1) st
          have "st' = (blocks, cb @ [line])"
            by (cases "cb = []") (auto simp: py_index_last Let_def)
          moreover from False p have "bullets_then_plain (cb @ [line])"
            by (intro bullets_then_plain_snoc_after_bullet) auto
          ultimately show ?thesis using b l gl nh by (simp add: group_inv_def)
        qed
      next
        case False
        with ne nh assms(1) st have "st' = (blocks, cb @ [line])" by (simp add: Let_def)
        moreover from False p have "bullets_then_plain (cb @ [line])"
          by (intro bullets_then_plain_snoc_plain)
        ultimately show ?thesis using b l gl nh by (simp add: group_inv_def)
      qed
    qed
  qed
qed

lemma group_blocks_good:
  assumes "group_blocks text = Inr blocks" "b \<in> set blocks"
  shows "good_block b"
proof -
  from assms(1) obtain bs cb where
    f: "fold_err group_line ([], []) (split_nl (strip text)) = Inr (bs, cb)"
    and r: "blocks = (if cb \<noteq> [] then bs @ [join newline cb] else bs)"
    by (auto simp: group_blocks_def split: sum.splits)
  have "group_inv (bs, cb)"
  proof (rule fold_err_invariant [OF f])
    show "group_inv ([], [])" by (simp add: group_inv_def)
  next
    fix s x s'
    assume "x \<in> set (split_nl (strip text))" "group_inv s" "group_line s x = Inr s'"
    then show "group_inv s'"
      using group_line_inv split_nl_no_newline by blast
  qed
  then have b: "\<forall>b\<in>set bs. good_block b"
    and "cb \<noteq> [] \<Longrightarrow> good_block (join newline cb)"
    by (auto simp: group_inv_def intro: good_block_join)
  with r assms(2) show ?thesis by (auto split: if_splits)
qed

lemma group_line_plain:
  assumes "strip line \<noteq> []" "\<not> startswith (strip line) ''#''" "\<not> is_bullet (strip line)"
  shows "group_line (blocks, current_block) line = Inr (blocks, current_block @ [line])"
  using assms by (simp add: Let_def)

subsection \<open>The content is kept by every stage\<close>

lemma content_concat: "content (concat xs) = concat (map content xs)"
  by (induction xs) simp_all

lemma content_newline [simp]: "content newline = []"
  by (simp add: newline_def content_def)

lemma content_blank [simp]: "content '' '' = []"
  by (simp add: content_def)

lemma content_of_blank: "strip s = [] \<Longrightarrow> content s = []"
  by (simp add: strip_empty_iff)

lemma content_split_nl: "content (concat (split_nl s)) = content s"
proof (induction s)
  case Nil
  then show ?case by simp
next
  case (Cons c cs)
  show ?case
  proof (cases "c = CHR 0x0A")
    case True
    with Cons show ?thesis by (simp add: content_Cons)
  next
    case False
    obtain l ls where s: "split_nl cs = l # ls" by (cases "split_nl cs") auto
    with False have "concat (split_nl (c # cs)) = c # concat (split_nl cs)" by simp
    with Cons show ?thesis by (simp add: content_Cons)
  qed
qed

lemma content_join: "content sep = [] \<Longrightarrow> content (join sep xs) = content (concat xs)"
  by (induction sep xs rule: join.induct) simp_all

lemma fold_err_content:
  assumes "fold_err f s xs = Inr s'"
    and "\<And>s x s'. f s x = Inr s' \<Longrightarrow> m s' = m s @ content x"
  shows "m s' = m s @ content (concat xs)"
  using assms(1)
proof (induction xs arbitrary: s)
  case Nil
  then show ?case by simp
next
  case (Cons x xs)
  from Cons.prems obtain s1 where s1: "f s x = Inr s1" and r: "fold_err f s1 xs = Inr s'"
    by (auto split: sum.splits)
  from Cons.IH [OF r] assms(2) [OF s1] show ?case by simp
qed

lemma foldl_content:
  assumes "\<And>s x. m (f s x) = m s @ content x"
  shows "m (foldl f s xs) = m s @ content (concat xs)"
  by (induction xs arbitrary: s) (simp_all add: assms)

text \<open>The grouper.\<close>

lemma group_line_content:
  assumes "group_line st line = Inr st'"
  shows "content (concat (fst st')) @ content (concat (snd st')) =
     (content (concat (fst st)) @ content (concat (snd st))) @ content line"
proof -
  obtain blocks cb where st: "st = (blocks, cb)" by (cases st)
  have j: "content (join newline cb) = content (concat cb)" by (simp add: content_join)
  show ?thesis
  proof (cases "strip line = []")
    case True
    with assms st
    have "st' = (if cb \<noteq> [] then (blocks @ [join newline cb], []) else (blocks, cb))"
      by (auto simp: Let_def)
    with st j True show ?thesis by (simp add: content_of_blank)
  next
    case ne: False
    have cs: "content (strip line) = content line" by simp
    show ?thesis
    proof (cases "startswith (strip line) ''#''")
      case True
      with ne assms st
      have "st' = (if cb \<noteq> [] then (blocks @ [join newline cb, strip line], [])
                   else (blocks @ [strip line], cb))"
        by (auto simp: Let_def)
      with st j cs show ?thesis by simp
    next
      case nh: False
      show ?thesis
      proof (cases "is_bullet (strip line) \<and> cb \<noteq> [] \<and> \<not> is_bullet (strip (last cb))")
        case True
        with ne nh assms st have "st' = (blocks @ [join newline cb], [line])"
          by (simp add: py_index_last Let_def)
        with st j show ?thesis by simp
      next
        case False
        with ne nh assms st have "st' = (blocks, cb @ [line])"
          by (cases "cb = []") (auto simp: py_index_last Let_def split: if_splits)
        with st show ?thesis by simp
      qed
    qed
  qed
qed

lemma group_blocks_content:
  assumes "group_blocks text = Inr blocks"
  shows "content (concat blocks) = content text"
proof -
  from assms obtain bs cb where
    f: "fold_err group_line ([], []) (split_nl (strip text)) = Inr (bs, cb)"
    and r: "blocks = (if cb \<noteq> [] then bs @ [join newline cb] else bs)"
    by (auto simp: group_blocks_def split: sum.splits)
  have "content (concat (fst (bs, cb))) @ content (concat (snd (bs, cb))) =
      (content (concat (fst ([]::string list, []::string list))) @
       content (concat (snd ([]::string list, []::string list)))) @
      content (concat (split_nl (strip text)))"
    by (rule fold_err_content [OF f]) (rule group_line_content)
  then have "content (concat bs) @ content (concat cb) = content text"
    by (simp add: content_split_nl)
  with r show ?thesis by (cases "cb = []") (simp_all add: content_join)
qed

text \<open>The sentence splitter.\<close>

lemma content_re_split_from: "content (concat (re_split_from cur s)) = content (cur @ s)"
proof (induction cur s rule: re_split_from.induct)
  case (1 cur)
  then show ?case by simp
next
  case (2 cur c cs)
  show ?case
  proof (cases "is_terminal c \<and> cs \<noteq> [] \<and> is_space (hd cs)")
    case True
    then have "re_split_from cur (c # cs) =
        cur # [c] # re_split_from [] (dropWhile is_space cs)"
      by simp
    moreover from True have "\<not> is_space c" by (simp add: is_terminal_not_space)
    ultimately show ?thesis using "2.IH"(1) [OF True] by (simp add: content_Cons)
  next
    case False
    then have "re_split_from cur (c # cs) = re_split_from (cur @ [c]) cs"
      by (simp only: re_split_from.simps if_False)
    with "2.IH"(2) [OF False] show ?thesis by simp
  qed
qed

lemma content_sentences_of: "content (concat (sentences_of parts)) = content (concat parts)"
  by (induction parts rule: sentences_of.induct) (simp_all add: content_of_blank)

lemma pack_sentence_content:
  "content (concat (fst (pack_sentence max_words st s))) @
     content (fst (snd (pack_sentence max_words st s))) =
   (content (concat (fst st)) @ content (fst (snd st))) @ content s"
proof -
  obtain segs cur n where st: "st = (segs, cur, n)" by (cases st)
  show ?thesis
    unfolding st
    by (cases "strip s = []") (simp_all add: Let_def content_of_blank content_Cons)
qed

lemma split_long_text_content:
  assumes "split_long_text text max_words = Inr chunks"
  shows "content (concat chunks) = content text"
proof -
  let ?st = "foldl (pack_sentence max_words) ([], [], 0) (sentences_of (re_split text))"
  obtain segs cur n where st: "?st = (segs, cur, n)" by (cases ?st)
  from assms st have c: "chunks = (if strip cur \<noteq> [] then segs @ [strip cur] else segs)"
    by (simp add: split_long_text_eq)
  have "content (concat (fst ?st)) @ content (fst (snd ?st)) =
      (content (concat (fst ([]::string list, []::string, 0::int))) @
       content (fst (snd ([]::string list, []::string, 0::int)))) @
      content (concat (sentences_of (re_split text)))"
    by (rule foldl_content) (rule pack_sentence_content)
  then have "content (concat segs) @ content cur =
      content (concat (sentences_of (re_split text)))"
    by (simp add: st)
  then have "content (concat segs) @ content cur = content text"
    by (simp add: content_sentences_of re_split_def content_re_split_from)
  with c show ?thesis by (cases "strip cur = []") (simp_all add: content_of_blank)
qed

text \<open>The packer.\<close>

lemma pack_line_content:
  assumes "pack_line max_words st line = Inr st'"
  shows "content (concat (fst st')) @ content (fst (snd st')) =
     (content (concat (fst st)) @ content (fst (snd st))) @ content line"
proof -
  obtain segs cur n where st: "st = (segs, cur, n)" by (cases st)
  show ?thesis
  proof (cases "word_count line > max_words")
    case True
    with assms st obtain split_line where
      sl: "split_long_text line max_words = Inr split_line"
      and st': "st' = (if cur \<noteq> [] then (segs @ [strip cur] @ split_line, [], 0)
                       else (segs @ split_line, cur, n))"
      by (auto simp: Let_def split: sum.splits if_splits)
    from split_long_text_content [OF sl] st st' show ?thesis by simp
  next
    case False
    with assms st show ?thesis by (auto simp: Let_def split: if_splits)
  qed
qed

lemma pack_block_content:
  assumes "pack_block max_words segments block = Inr segments'"
  shows "content (concat segments') = content (concat segments) @ content block"
proof (cases "strip block = [] \<or> word_count (strip block) \<le> max_words")
  case True
  with assms show ?thesis
    by (auto simp: pack_block_def Let_def content_of_blank split: if_splits)
next
  case False
  show ?thesis
  proof (cases "list_ex (\<lambda>l. is_bullet (strip l)) (split_nl (strip block))")
    case True
    with False assms obtain segs cur n where
      f: "fold_err (pack_line max_words) (segments, [], 0) (split_nl (strip block)) = Inr (segs, cur, n)"
      and r: "segments' = (if strip cur \<noteq> [] then segs @ [strip cur] else segs)"
      by (auto simp: pack_block_def Let_def split: sum.splits)
    have "content (concat (fst (segs, cur, n))) @ content (fst (snd (segs, cur, n))) =
        (content (concat (fst (segments, []::string, 0::int))) @
         content (fst (snd (segments, []::string, 0::int)))) @
        content (concat (split_nl (strip block)))"
      by (rule fold_err_content [OF f]) (rule pack_line_content)
    then have "content (concat segs) @ content cur = content (concat segments) @ content block"
      by (simp add: content_split_nl)
    with r show ?thesis by (cases "strip cur = []") (simp_all add: content_of_blank)
  next
    case nb: False
    with False assms obtain split_text where
      sl: "split_long_text (strip block) max_words = Inr split_text"
      and r: "segments' = segments @ split_text"
      by (auto simp: pack_block_def Let_def split: sum.splits)
    from split_long_text_content [OF sl] r show ?thesis by simp
  qed
qed

lemma pack_blocks_content:
  assumes "pack_blocks max_words blocks = Inr segments"
  shows "content (concat segments) = content (concat blocks)"
proof -
  from assms have f: "fold_err (pack_block max_words) [] blocks = Inr segments"
    by (simp add: pack_blocks_def)
  have "content (concat segments) = content (concat ([]::string list)) @ content (concat blocks)"
    by (rule fold_err_content [OF f, where m = "\<lambda>s. content (concat s)"])
       (rule pack_block_content)
  then show ?thesis by simp
qed

text \<open>The relocator.\<close>

lemma relocate_segment_content: "content (concat (relocate_segment [] seg)) = content seg"
proof (cases "search_marker seg")
  case None
  then show ?thesis by (simp add: relocate_segment_def)
next
  case (Some m)
  obtain p e ds where "m = (p, e, ds)" by (cases m)
  with Some have s: "search_marker seg = Some (p, e, ds)" by simp
  have "content (take e seg) @ content (drop e seg) = content seg"
    by (simp only: content_append [symmetric] append_take_drop_id)
  then show ?thesis
    using s by (auto simp: relocate_segment_def Let_def content_of_blank)
qed

lemma relocate_content: "content (concat (relocate segments)) = content (concat segments)"
  by (induction segments)
     (simp_all add: relocate_map relocate_segment_content)

subsection \<open>Sentence boundaries\<close>

lemma has_boundary_append:
  "has_boundary (a @ b) \<longleftrightarrow>
     has_boundary a \<or> has_boundary b \<or>
     (a \<noteq> [] \<and> b \<noteq> [] \<and> is_terminal (last a) \<and> is_space (hd b))"
proof (induction a)
  case Nil
  then show ?case by simp
next
  case (Cons x a)
  show ?case
  proof (cases "a = []")
    case True
    then show ?thesis by (cases b) auto
  next
    case False
    with Cons show ?thesis by (auto simp: hd_append)
  qed
qed

lemma has_boundary_take: "has_boundary (take n s) \<Longrightarrow> has_boundary s"
  using has_boundary_append [of "take n s" "drop n s"] by simp

lemma has_boundary_drop: "has_boundary (drop n s) \<Longrightarrow> has_boundary s"
  using has_boundary_append [of "take n s" "drop n s"] by simp

lemma has_boundary_strip: "has_boundary (strip s) \<Longrightarrow> has_boundary s"
proof -
  assume h: "has_boundary (strip s)"
  obtain a b where s: "s = a @ strip s @ b" using strip_decomp by blast
  from h have "has_boundary (strip s @ b)" by (simp add: has_boundary_append)
  then have "has_boundary (a @ strip s @ b)" by (simp add: has_boundary_append [of a])
  with s show ?thesis by simp
qed

lemma has_boundary_take_1 [simp]: "\<not> has_boundary (take 1 s)"
  by (cases s) simp_all

lemma py_in_terminal: "is_terminal c \<Longrightarrow> py_in [c] ''.!?''"
  by (auto simp: is_terminal_def)

lemma sentences_of_re_split_from:
  "\<not> has_boundary (cur @ take 1 s) \<Longrightarrow> x \<in> set (sentences_of (re_split_from cur s)) \<Longrightarrow>
     \<not> has_boundary x \<and> strip x \<noteq> []"
proof (induction cur s rule: re_split_from.induct)
  case (1 cur)
  then show ?case by (auto split: if_splits)
next
  case (2 cur c cs)
  show ?case
  proof (cases "is_terminal c \<and> cs \<noteq> [] \<and> is_space (hd cs)")
    case True
    then have r: "re_split_from cur (c # cs) =
        cur # [c] # re_split_from [] (dropWhile is_space cs)"
      by simp
    from True have "py_in [c] ''.!?''" by (intro py_in_terminal) simp
    with r have s: "sentences_of (re_split_from cur (c # cs)) =
        (cur @ [c]) # sentences_of (re_split_from [] (dropWhile is_space cs))"
      by simp
    from True have "\<not> is_space c" by (simp add: is_terminal_not_space)
    then have "content (cur @ [c]) \<noteq> []" by (simp add: content_Cons)
    then have ne: "strip (cur @ [c]) \<noteq> []" by (simp add: strip_empty_iff)
    from "2.prems"(1) have hb: "\<not> has_boundary (cur @ [c])" by simp
    have "\<not> has_boundary ([] @ take 1 (dropWhile is_space cs))"
      by (simp only: append_Nil has_boundary_take_1 not_False_eq_True)
    from "2.IH"(1) [OF True this] "2.prems"(2) s ne hb show ?thesis by auto
  next
    case False
    then have r: "re_split_from cur (c # cs) = re_split_from (cur @ [c]) cs"
      by (simp only: re_split_from.simps if_False)
    from "2.prems"(1) have nb: "\<not> has_boundary (cur @ [c])" by simp
    have "has_boundary ((cur @ [c]) @ take 1 cs) \<longleftrightarrow>
        has_boundary (cur @ [c]) \<or> has_boundary (take 1 cs) \<or>
        (cur @ [c] \<noteq> [] \<and> take 1 cs \<noteq> [] \<and> is_terminal (last (cur @ [c])) \<and>
         is_space (hd (take 1 cs)))"
      by (rule has_boundary_append)
    with False nb have "\<not> has_boundary ((cur @ [c]) @ take 1 cs)"
      by (cases cs) auto
    from "2.IH"(2) [OF False this] "2.prems"(2) r show ?thesis by simp
  qed
qed

lemma sentences_of_re_split:
  assumes "x \<in> set (sentences_of (re_split text))"
  shows "\<not> has_boundary x" and "strip x \<noteq> []" and "\<not> has_boundary (strip x)"
proof -
  have "\<not> has_boundary ([] @ take 1 text)"
    by (simp only: append_Nil has_boundary_take_1 not_False_eq_True)
  from sentences_of_re_split_from [OF this] assms
  show "\<not> has_boundary x" and "strip x \<noteq> []" by (simp_all add: re_split_def)
  then show "\<not> has_boundary (strip x)" using has_boundary_strip by blast
qed

subsection \<open>Words that are joined or deleted\<close>

lemma word_starts_nonspace:
  "\<forall>c\<in>set m. \<not> is_space c \<Longrightarrow> m \<noteq> [] \<Longrightarrow> word_starts b m = (if b then 1 else 0)"
proof (induction m arbitrary: b)
  case Nil
  then show ?case by simp
next
  case (Cons c m)
  then show ?case by (cases "m = []") auto
qed

lemma word_starts_drop_marker:
  assumes "ds \<noteq> []" "list_all is_digit ds"
  shows "word_starts b rest \<le> word_starts b (marker_text ds @ rest)"
proof -
  have ns: "\<forall>c\<in>set (marker_text ds). \<not> is_space c"
    using assms(2) by (auto dest: marker_text_no_space)
  have ne: "marker_text ds \<noteq> []" by (simp add: marker_text_def)
  from ns ne have l: "\<not> is_space (last (marker_text ds))" by simp
  have "word_starts b (marker_text ds @ rest) =
      (if b then 1 else 0) + word_starts False rest"
    using ne l by (simp add: word_starts_append word_starts_nonspace [OF ns ne])
  moreover have "word_starts True rest \<le> Suc (word_starts False rest)"
    by (rule word_starts_flag)
  ultimately show ?thesis by (cases b) simp_all
qed

lemma word_starts_sub_marker: "word_starts b (sub_marker s) \<le> word_starts b s"
proof (induction s arbitrary: b rule: sub_marker.induct)
  case 1
  then show ?case by simp
next
  case (2 c cs)
  show ?case
  proof (cases "match_marker (c # cs)")
    case None
    with "2.IH"(1) [OF None] show ?thesis
      by (simp add: add_le_mono)
  next
    case (Some ds)
    note d = match_marker_SomeD [OF Some]
    have "word_starts b (sub_marker (drop (7 + length ds) (c # cs))) \<le>
        word_starts b (drop (7 + length ds) (c # cs))"
      by (rule "2.IH"(2) [OF Some])
    also have "\<dots> \<le> word_starts b (marker_text ds @ drop (7 + length ds) (c # cs))"
      using d(2,3) by (rule word_starts_drop_marker)
    also have "\<dots> = word_starts b (c # cs)" using d(1) by simp
    finally show ?thesis using Some by simp
  qed
qed

lemma word_count_sub_marker: "word_count (sub_marker s) \<le> word_count s"
  by (simp add: word_count_starts word_starts_sub_marker)

lemma classify_word_count:
  assumes "classify raw = Inr x" shows "word_count (text' x) \<le> word_count raw"
proof (cases "search_marker raw")
  case None
  from classify_None [OF None assms] show ?thesis by simp
next
  case (Some m)
  obtain p e ds where "m = (p, e, ds)" by (cases m)
  with Some have s: "search_marker raw = Some (p, e, ds)" by simp
  from classify_Some [OF s assms] show ?thesis by (simp add: word_count_sub_marker)
qed

subsection \<open>The budget\<close>

lemma within_budget_strip: "within_budget max_words c \<Longrightarrow> within_budget max_words (strip c)"
  using has_boundary_strip by (auto simp: within_budget_def)

lemma within_budget_take: "within_budget max_words c \<Longrightarrow> within_budget max_words (take n c)"
  using has_boundary_take [of n c] word_count_take_le [of n c]
  by (auto simp: within_budget_def)

lemma within_budget_drop: "within_budget max_words c \<Longrightarrow> within_budget max_words (drop n c)"
  using has_boundary_drop [of n c] word_count_drop_le [of n c]
  by (auto simp: within_budget_def)

lemma relocate_within_budget:
  assumes "\<forall>c\<in>set segments. within_budget max_words c"
  shows "\<forall>c\<in>set (relocate segments). within_budget max_words c"
proof -
  have "\<forall>c\<in>set (relocate_segment [] seg). within_budget max_words c"
    if "within_budget max_words seg" for seg
    using that
    by (auto simp: relocate_segment_def Let_def within_budget_strip within_budget_take
        within_budget_drop split: option.splits)
  with assms show ?thesis by (auto simp: relocate_map)
qed

lemma pack_inv_init: "\<forall>c\<in>set segments. within_budget max_words c \<Longrightarrow>
    pack_inv max_words (segments, [], 0)"
  by (simp add: pack_inv_def)

lemma pack_inv_flush:
  assumes "pack_inv max_words (segs, cur, n)"
  shows "cur \<noteq> [] \<Longrightarrow> within_budget max_words (strip cur)"
    and "\<forall>c\<in>set segs. within_budget max_words c" and "n = word_count cur"
  using assms by (simp_all add: pack_inv_def within_budget_def)

lemma pack_sentence_inv:
  assumes "pack_inv max_words st" "\<not> has_boundary (strip s)"
  shows "pack_inv max_words (pack_sentence max_words st s)"
proof -
  obtain segs cur n where st: "st = (segs, cur, n)" by (cases st)
  note f = pack_inv_flush [OF assms(1) [unfolded st]]
  have b: "within_budget max_words (strip s)" using assms(2) by (simp add: within_budget_def)
  have j: "word_count (cur @ '' '' @ strip s) = word_count cur + word_count s"
    using word_count_join2 [of "'' ''" cur "strip s"] by simp
  show ?thesis
  proof (cases "strip s = []")
    case True
    with assms(1) st show ?thesis by (simp add: Let_def)
  next
    case ne: False
    show ?thesis
    proof (cases "word_count s > max_words")
      case True
      with ne st f b show ?thesis
        by (cases "cur = []") (simp_all add: Let_def pack_inv_def)
    next
      case le: False
      show ?thesis
      proof (cases "n + word_count s > max_words")
        case True
        with ne le st f show ?thesis
          by (cases "cur = []") (auto simp: Let_def pack_inv_def)
      next
        case False
        with ne le st f j show ?thesis
          by (cases "cur = []") (auto simp: Let_def pack_inv_def)
      qed
    qed
  qed
qed

lemma pack_inv_result:
  assumes "pack_inv max_words (segs, cur, n)"
  shows "\<forall>c\<in>set (if strip cur \<noteq> [] then segs @ [strip cur] else segs). within_budget max_words c"
proof -
  note f = pack_inv_flush [OF assms]
  have "strip cur \<noteq> [] \<Longrightarrow> cur \<noteq> []" by auto
  with f show ?thesis by auto
qed

lemma split_long_text_within_budget:
  assumes "split_long_text text max_words = Inr chunks" "c \<in> set chunks"
  shows "within_budget max_words c"
proof -
  let ?st = "foldl (pack_sentence max_words) ([], [], 0) (sentences_of (re_split text))"
  obtain segs cur n where st: "?st = (segs, cur, n)" by (cases ?st)
  from assms(1) st have c: "chunks = (if strip cur \<noteq> [] then segs @ [strip cur] else segs)"
    by (simp add: split_long_text_eq)
  have "pack_inv max_words ?st"
  proof (rule foldl_invariant)
    show "pack_inv max_words ([], [], 0)" by (simp add: pack_inv_init)
  next
    fix s x
    assume "x \<in> set (sentences_of (re_split text))" "pack_inv max_words s"
    then show "pack_inv max_words (pack_sentence max_words s x)"
      using sentences_of_re_split(3) pack_sentence_inv by blast
  qed
  then have "pack_inv max_words (segs, cur, n)" by (simp only: st)
  from pack_inv_result [OF this] c assms(2) show ?thesis by blast
qed

lemma pack_line_inv:
  assumes "pack_line max_words st line = Inr st'" "pack_inv max_words st"
  shows "pack_inv max_words st'"
proof -
  obtain segs cur n where st: "st = (segs, cur, n)" by (cases st)
  note f = pack_inv_flush [OF assms(2) [unfolded st]]
  have j: "word_count (cur @ newline @ line) = word_count cur + word_count line"
    by (rule word_count_join2) (simp_all add: newline_def)
  show ?thesis
  proof (cases "word_count line > max_words")
    case True
    with assms(1) st obtain split_line where
      sl: "split_long_text line max_words = Inr split_line"
      and st': "st' = (if cur \<noteq> [] then (segs @ [strip cur] @ split_line, [], 0)
                       else (segs @ split_line, cur, n))"
      by (auto simp: Let_def split: sum.splits if_splits)
    from split_long_text_within_budget [OF sl]
    have "\<forall>c\<in>set split_line. within_budget max_words c" by blast
    with st' f show ?thesis
      by (cases "cur = []") (auto simp: pack_inv_def)
  next
    case le: False
    show ?thesis
    proof (cases "n + word_count line > max_words")
      case True
      with le assms(1) st
      have "st' = ((if cur \<noteq> [] then segs @ [strip cur] else segs), line, word_count line)"
        by (simp add: Let_def)
      with le f show ?thesis by (cases "cur = []") (auto simp: pack_inv_def)
    next
      case False
      with le assms(1) st
      have "st' = (segs, (if cur \<noteq> [] then cur @ newline @ line else line), n + word_count line)"
        by (simp add: Let_def)
      with False f j show ?thesis by (cases "cur = []") (auto simp: pack_inv_def)
    qed
  qed
qed

lemma pack_block_within_budget:
  assumes "pack_block max_words segments block = Inr segments'"
    and "\<forall>c\<in>set segments. within_budget max_words c"
  shows "\<forall>c\<in>set segments'. within_budget max_words c"
proof (cases "strip block = [] \<or> word_count (strip block) \<le> max_words")
  case True
  with assms show ?thesis
    by (auto simp: pack_block_def Let_def within_budget_def split: if_splits)
next
  case False
  show ?thesis
  proof (cases "list_ex (\<lambda>l. is_bullet (strip l)) (split_nl (strip block))")
    case True
    with False assms(1) obtain segs cur n where
      f: "fold_err (pack_line max_words) (segments, [], 0) (split_nl (strip block)) = Inr (segs, cur, n)"
      and r: "segments' = (if strip cur \<noteq> [] then segs @ [strip cur] else segs)"
      by (auto simp: pack_block_def Let_def split: sum.splits)
    have "pack_inv max_words (segs, cur, n)"
    proof (rule fold_err_invariant [OF f, where I = "pack_inv max_words"])
      show "pack_inv max_words (segments, [], 0)" using assms(2) by (rule pack_inv_init)
    next
      fix s x s'
      assume "pack_inv max_words s" "pack_line max_words s x = Inr s'"
      then show "pack_inv max_words s'" using pack_line_inv by blast
    qed
    from pack_inv_result [OF this] r show ?thesis by simp
  next
    case nb: False
    with False assms(1) obtain split_text where
      sl: "split_long_text (strip block) max_words = Inr split_text"
      and r: "segments' = segments @ split_text"
      by (auto simp: pack_block_def Let_def split: sum.splits)
    from split_long_text_within_budget [OF sl] assms(2) r show ?thesis by auto
  qed
qed

lemma pack_blocks_within_budget:
  assumes "pack_blocks max_words blocks = Inr segments"
  shows "\<forall>c\<in>set segments. within_budget max_words c"
proof -
  from assms have f: "fold_err (pack_block max_words) [] blocks = Inr segments"
    by (simp add: pack_blocks_def)
  show ?thesis
  proof (rule fold_err_invariant [OF f, where I = "\<lambda>s. \<forall>c\<in>set s. within_budget max_words c"])
    show "\<forall>c\<in>set []. within_budget max_words c" by simp
  next
    fix s x s'
    assume "\<forall>c\<in>set s. within_budget max_words c" "pack_block max_words s x = Inr s'"
    then show "\<forall>c\<in>set s'. within_budget max_words c"
      using pack_block_within_budget by blast
  qed
qed

lemma split_markdown_within_budget:
  assumes "split_markdown_for_video_with_image_split text max_words = Inr segments"
  shows "\<forall>c\<in>set segments. within_budget max_words c"
proof -
  from assms obtain blocks packed where
    p: "pack_blocks max_words blocks = Inr packed" and s: "segments = relocate packed"
    by (auto simp: split_markdown_for_video_with_image_split_def split: sum.splits)
  from pack_blocks_within_budget [OF p] show ?thesis
    unfolding s by (rule relocate_within_budget)
qed

subsection \<open>What is emitted stays, and an oversized sentence is emitted\<close>

lemma fold_err_mono:
  assumes "fold_err f s xs = Inr s'"
    and "\<And>s x s'. f s x = Inr s' \<Longrightarrow> g s \<subseteq> g s'"
  shows "g s \<subseteq> g s'"
  using assms(1)
proof (induction xs arbitrary: s)
  case Nil
  then show ?case by simp
next
  case (Cons x xs)
  from Cons.prems obtain s1 where s1: "f s x = Inr s1" and r: "fold_err f s1 xs = Inr s'"
    by (auto split: sum.splits)
  from assms(2) [OF s1] Cons.IH [OF r] show ?case by blast
qed

lemma fold_err_emits:
  assumes "fold_err f s xs = Inr s'" and "x \<in> set xs"
    and "\<And>s x s'. f s x = Inr s' \<Longrightarrow> g s \<subseteq> g s'"
    and "\<And>s s'. f s x = Inr s' \<Longrightarrow> A \<subseteq> g s'"
  shows "A \<subseteq> g s'"
  using assms(1,2)
proof (induction xs arbitrary: s)
  case Nil
  then show ?case by simp
next
  case (Cons y xs)
  from Cons.prems(1) obtain s1 where s1: "f s y = Inr s1" and r: "fold_err f s1 xs = Inr s'"
    by (auto split: sum.splits)
  show ?case
  proof (cases "x = y")
    case True
    with s1 have "A \<subseteq> g s1" using assms(4) by blast
    moreover have "g s1 \<subseteq> g s'" using r assms(3) by (rule fold_err_mono)
    ultimately show ?thesis by blast
  next
    case False
    with Cons.prems(2) have "x \<in> set xs" by simp
    with r show ?thesis by (rule Cons.IH)
  qed
qed

lemma pack_sentence_mono: "set (fst st) \<subseteq> set (fst (pack_sentence max_words st s))"
proof -
  obtain segs cur n where st: "st = (segs, cur, n)" by (cases st)
  show ?thesis unfolding st by (auto simp: Let_def)
qed

lemma pack_sentence_emits:
  "strip s \<noteq> [] \<Longrightarrow> max_words < word_count (strip s) \<Longrightarrow>
     strip s \<in> set (fst (pack_sentence max_words st s))"
proof -
  assume a: "strip s \<noteq> []" "max_words < word_count (strip s)"
  obtain segs cur n where st: "st = (segs, cur, n)" by (cases st)
  from a show ?thesis unfolding st by (simp add: Let_def)
qed

lemma foldl_pack_sentence_mono:
  "set (fst st) \<subseteq> set (fst (foldl (pack_sentence max_words) st xs))"
proof (induction xs arbitrary: st)
  case Nil
  then show ?case by simp
next
  case (Cons x xs)
  from pack_sentence_mono [of st max_words x] Cons [of "pack_sentence max_words st x"]
  show ?case by auto
qed

lemma foldl_pack_sentence_emits:
  "s \<in> set xs \<Longrightarrow> strip s \<noteq> [] \<Longrightarrow> max_words < word_count (strip s) \<Longrightarrow>
     strip s \<in> set (fst (foldl (pack_sentence max_words) st xs))"
proof (induction xs arbitrary: st)
  case Nil
  then show ?case by simp
next
  case (Cons x xs)
  show ?case
  proof (cases "s = x")
    case True
    with Cons.prems have "strip s \<in> set (fst (pack_sentence max_words st x))"
      by (simp add: pack_sentence_emits)
    with foldl_pack_sentence_mono [of "pack_sentence max_words st x" max_words xs]
    show ?thesis by auto
  next
    case False
    with Cons.prems have "s \<in> set xs" by simp
    from Cons.IH [OF this Cons.prems(2,3)] show ?thesis by simp
  qed
qed

lemma sentences_loop_sentences:
  "sentences_loop (re_split text) 0 [] = Inr sentences \<longleftrightarrow> sentences = sentences_of (re_split text)"
  by (auto simp: sentences_loop_eq)

lemma split_long_text_emits:
  assumes "split_long_text text max_words = Inr chunks"
    and "s \<in> set (sentences_of (re_split text))" and "max_words < word_count (strip s)"
  shows "strip s \<in> set chunks"
proof -
  let ?st = "foldl (pack_sentence max_words) ([], [], 0) (sentences_of (re_split text))"
  obtain segs cur n where st: "?st = (segs, cur, n)" by (cases ?st)
  from assms(1) st have c: "chunks = (if strip cur \<noteq> [] then segs @ [strip cur] else segs)"
    by (simp add: split_long_text_eq)
  from sentences_of_re_split(2) [OF assms(2)] have "strip s \<noteq> []" .
  with assms(2,3) have "strip s \<in> set (fst ?st)" by (intro foldl_pack_sentence_emits)
  with st c show ?thesis by simp
qed

lemma pack_line_mono:
  assumes "pack_line max_words st line = Inr st'" shows "set (fst st) \<subseteq> set (fst st')"
proof -
  obtain segs cur n where st: "st = (segs, cur, n)" by (cases st)
  from assms show ?thesis
    unfolding st by (auto simp: Let_def split: if_splits sum.splits)
qed

lemma pack_line_emits:
  assumes "pack_line max_words st line = Inr st'" and "max_words < word_count line"
    and "split_long_text line max_words = Inr chunks"
  shows "set chunks \<subseteq> set (fst st')"
proof -
  obtain segs cur n where st: "st = (segs, cur, n)" by (cases st)
  from assms show ?thesis
    unfolding st by (auto simp: Let_def split: if_splits)
qed

lemma pack_block_mono:
  assumes "pack_block max_words segments block = Inr segments'"
  shows "set segments \<subseteq> set segments'"
proof (cases "strip block = [] \<or> word_count (strip block) \<le> max_words")
  case True
  with assms show ?thesis by (auto simp: pack_block_def Let_def split: if_splits)
next
  case False
  show ?thesis
  proof (cases "list_ex (\<lambda>l. is_bullet (strip l)) (split_nl (strip block))")
    case True
    with False assms obtain segs cur n where
      f: "fold_err (pack_line max_words) (segments, [], 0) (split_nl (strip block)) = Inr (segs, cur, n)"
      and r: "segments' = (if strip cur \<noteq> [] then segs @ [strip cur] else segs)"
      by (auto simp: pack_block_def Let_def split: sum.splits)
    have "set (fst (segments, []::string, 0::int)) \<subseteq> set (fst (segs, cur, n))"
      by (rule fold_err_mono [OF f, where g = "\<lambda>s. set (fst s)"]) (rule pack_line_mono)
    with r show ?thesis by auto
  next
    case nb: False
    with False assms show ?thesis
      by (auto simp: pack_block_def Let_def split: sum.splits)
  qed
qed

lemma pack_block_emits:
  assumes "pack_block max_words segments block = Inr segments'"
    and "splitter_input max_words block t" and "split_long_text t max_words = Inr chunks"
  shows "set chunks \<subseteq> set segments'"
proof -
  from assms(2) have over: "\<not> (strip block = [] \<or> word_count (strip block) \<le> max_words)"
    by (simp add: splitter_input_def)
  show ?thesis
  proof (cases "list_ex (\<lambda>l. is_bullet (strip l)) (split_nl (strip block))")
    case True
    with assms(2) have t: "t \<in> set (split_nl (strip block))" "max_words < word_count t"
      by (simp_all add: splitter_input_def)
    from True over assms(1) obtain segs cur n where
      f: "fold_err (pack_line max_words) (segments, [], 0) (split_nl (strip block)) = Inr (segs, cur, n)"
      and r: "segments' = (if strip cur \<noteq> [] then segs @ [strip cur] else segs)"
      by (auto simp: pack_block_def Let_def split: sum.splits)
    have "set chunks \<subseteq> set (fst (segs, cur, n))"
    proof (rule fold_err_emits [OF f t(1), where g = "\<lambda>s. set (fst s)"])
      fix s x s'
      assume "pack_line max_words s x = Inr s'"
      then show "set (fst s) \<subseteq> set (fst s')" by (rule pack_line_mono)
    next
      fix s s'
      assume "pack_line max_words s t = Inr s'"
      then show "set chunks \<subseteq> set (fst s')" using t(2) assms(3) by (rule pack_line_emits)
    qed
    with r show ?thesis by auto
  next
    case False
    with assms(2) have "t = strip block" by (simp add: splitter_input_def)
    with False over assms(1,3) show ?thesis
      by (auto simp: pack_block_def Let_def split: sum.splits)
  qed
qed

lemma pack_blocks_emits:
  assumes "pack_blocks max_words blocks = Inr segments" and "b \<in> set blocks"
    and "splitter_input max_words b t" and "split_long_text t max_words = Inr chunks"
  shows "set chunks \<subseteq> set segments"
proof -
  from assms(1) have f: "fold_err (pack_block max_words) [] blocks = Inr segments"
    by (simp add: pack_blocks_def)
  show ?thesis
  proof (rule fold_err_emits [OF f assms(2), where g = set])
    fix s x s'
    assume "pack_block max_words s x = Inr s'"
    then show "set s \<subseteq> set s'" by (rule pack_block_mono)
  next
    fix s s'
    assume "pack_block max_words s b = Inr s'"
    then show "set chunks \<subseteq> set s'" using assms(3,4) by (rule pack_block_emits)
  qed
qed

lemma relocate_keeps_plain:
  assumes "seg \<in> set segments" "markers seg = []"
  shows "seg \<in> set (relocate segments)"
proof -
  from assms(2) have "search_marker seg = None" by (simp only: search_marker_None_iff)
  then have "relocate_segment [] seg = [seg]" by (simp add: relocate_segment_def)
  with assms(1) show ?thesis by (force simp: relocate_map)
qed

lemma content_collapse_ws [simp]: "content (collapse_ws s) = content s"
  by (induction s rule: collapse_ws.induct) (auto simp: content_Cons)

lemma classify_plain:
  assumes "markers raw = []"
  shows "classify raw = Inr \<lparr>text' = strip (collapse_ws (strip raw)), image_index = None,
     has_image = False, raw_text = raw\<rparr>"
proof -
  from assms have "search_marker raw = None" by (simp only: search_marker_None_iff)
  then show ?thesis by (simp add: classify_def)
qed

lemma normalised_nonempty: "strip s \<noteq> [] \<Longrightarrow> strip (collapse_ws (strip s)) \<noteq> []"
  by (simp add: strip_empty_iff)

subsection \<open>What is read between white space is kept by every stage before the relocator\<close>

lemma sa_Nil: "space_additive h \<Longrightarrow> h [] = []"
proof -
  assume "space_additive h"
  then have "h ([] @ []) = h [] @ h []" unfolding space_additive_def by blast
  then show ?thesis by simp
qed

lemma sa_cut:
  "space_additive h \<Longrightarrow> a = [] \<or> b = [] \<or> is_space (last a) \<or> is_space (hd b) \<Longrightarrow>
     h (a @ b) = h a @ h b"
  unfolding space_additive_def by blast

lemma sa_spaces: "space_additive h \<Longrightarrow> \<forall>c\<in>set s. is_space c \<Longrightarrow> h s = []"
proof (induction s)
  case Nil
  then show ?case by (simp add: sa_Nil)
next
  case (Cons c s)
  from Cons.prems have "h ([c] @ s) = h [c] @ h s" by (intro sa_cut) simp_all
  moreover from Cons.prems have "h [c] = []" unfolding space_additive_def by simp
  ultimately show ?case using Cons by simp
qed

lemma sa_spaces_left:
  assumes "space_additive h" "\<forall>c\<in>set a. is_space c" shows "h (a @ s) = h s"
proof -
  from assms(2) have "a = [] \<or> is_space (last a)" by (cases "a = []") simp_all
  then have "h (a @ s) = h a @ h s" using assms(1) by (intro sa_cut) auto
  with sa_spaces [OF assms] show ?thesis by simp
qed

lemma sa_spaces_right:
  assumes "space_additive h" "\<forall>c\<in>set b. is_space c" shows "h (s @ b) = h s"
proof -
  from assms(2) have "b = [] \<or> is_space (hd b)" by (cases b) simp_all
  then have "h (s @ b) = h s @ h b" using assms(1) by (intro sa_cut) auto
  with sa_spaces [OF assms] show ?thesis by simp
qed

lemma sa_strip: assumes "space_additive h" shows "h (strip s) = h s"
proof -
  obtain a b where s: "s = a @ strip s @ b" and a: "\<forall>c\<in>set a. is_space c"
    and b: "\<forall>c\<in>set b. is_space c"
    using strip_decomp by blast
  have "h (a @ strip s @ b) = h (strip s @ b)" using assms a by (rule sa_spaces_left)
  also have "\<dots> = h (strip s)" using assms b by (rule sa_spaces_right)
  finally show ?thesis using s by simp
qed

lemma sa_blank: "space_additive h \<Longrightarrow> strip s = [] \<Longrightarrow> h s = []"
  using sa_strip [of h s] by (simp add: sa_Nil)

lemma sa_sep:
  assumes "space_additive h" "sep \<noteq> []" "\<forall>c\<in>set sep. is_space c"
  shows "h (x @ sep @ y) = h x @ h y"
proof -
  from assms(2,3) have "is_space (hd (sep @ y))" by (cases sep) simp_all
  then have "h (x @ sep @ y) = h x @ h (sep @ y)" using assms(1) by (intro sa_cut) blast+
  also have "h (sep @ y) = h y" using assms(1,3) by (rule sa_spaces_left)
  finally show ?thesis .
qed

lemma sa_join:
  "space_additive h \<Longrightarrow> sep \<noteq> [] \<Longrightarrow> \<forall>c\<in>set sep. is_space c \<Longrightarrow>
     h (join sep xs) = concat (map h xs)"
  by (induction sep xs rule: join.induct) (simp_all add: sa_Nil sa_sep)

lemma sa_join_newline: "space_additive h \<Longrightarrow> h (join newline xs) = concat (map h xs)"
  by (rule sa_join) (simp_all add: newline_def)

lemma sa_dropWhile: assumes "space_additive h" shows "h (dropWhile is_space s) = h s"
proof -
  have "h (takeWhile is_space s @ dropWhile is_space s) = h (dropWhile is_space s)"
    using assms by (rule sa_spaces_left) (auto dest: set_takeWhileD)
  then show ?thesis by simp
qed

lemma join_split_nl: "join newline (split_nl s) = s"
proof (induction s)
  case Nil
  then show ?case by simp
next
  case (Cons c cs)
  obtain l ls where s: "split_nl cs = l # ls" by (cases "split_nl cs") auto
  show ?case
  proof (cases "c = CHR 0x0A")
    case True
    with Cons s show ?thesis by (simp add: newline_def)
  next
    case False
    with Cons s show ?thesis by (cases ls) simp_all
  qed
qed

lemma sa_split_nl: "space_additive h \<Longrightarrow> concat (map h (split_nl s)) = h s"
  using sa_join_newline [of h "split_nl s"] by (simp add: join_split_nl)

lemma fold_err_additive:
  assumes "fold_err f s xs = Inr s'"
    and "\<And>s x s'. f s x = Inr s' \<Longrightarrow> m s' = m s @ h x"
  shows "m s' = m s @ concat (map h xs)"
  using assms(1)
proof (induction xs arbitrary: s)
  case Nil
  then show ?case by simp
next
  case (Cons x xs)
  from Cons.prems obtain s1 where s1: "f s x = Inr s1" and r: "fold_err f s1 xs = Inr s'"
    by (auto split: sum.splits)
  from Cons.IH [OF r] assms(2) [OF s1] show ?case by simp
qed

lemma foldl_additive:
  assumes "\<And>s x. m (f s x) = m s @ h x"
  shows "m (foldl f s xs) = m s @ concat (map h xs)"
  by (induction xs arbitrary: s) (simp_all add: assms)

text \<open>The grouper.\<close>

lemma group_line_additive:
  assumes sa: "space_additive h" and g: "group_line st line = Inr st'"
  shows "concat (map h (fst st')) @ concat (map h (snd st')) =
     (concat (map h (fst st)) @ concat (map h (snd st))) @ h line"
proof -
  obtain blocks cb where st: "st = (blocks, cb)" by (cases st)
  note j = sa_join_newline [OF sa, of cb]
  show ?thesis
  proof (cases "strip line = []")
    case True
    with g st
    have "st' = (if cb \<noteq> [] then (blocks @ [join newline cb], []) else (blocks, cb))"
      by (auto simp: Let_def)
    with st j sa_blank [OF sa True] show ?thesis by simp
  next
    case ne: False
    note cs = sa_strip [OF sa, of line]
    show ?thesis
    proof (cases "startswith (strip line) ''#''")
      case True
      with ne g st
      have "st' = (if cb \<noteq> [] then (blocks @ [join newline cb, strip line], [])
                   else (blocks @ [strip line], cb))"
        by (auto simp: Let_def)
      with st j cs show ?thesis by simp
    next
      case nh: False
      show ?thesis
      proof (cases "is_bullet (strip line) \<and> cb \<noteq> [] \<and> \<not> is_bullet (strip (last cb))")
        case True
        with ne nh g st have "st' = (blocks @ [join newline cb], [line])"
          by (simp add: py_index_last Let_def)
        with st j show ?thesis by simp
      next
        case False
        with ne nh g st have "st' = (blocks, cb @ [line])"
          by (cases "cb = []") (auto simp: py_index_last Let_def split: if_splits)
        with st show ?thesis by simp
      qed
    qed
  qed
qed

lemma group_blocks_additive:
  assumes sa: "space_additive h" and g: "group_blocks text = Inr blocks"
  shows "concat (map h blocks) = h text"
proof -
  from g obtain bs cb where
    f: "fold_err group_line ([], []) (split_nl (strip text)) = Inr (bs, cb)"
    and r: "blocks = (if cb \<noteq> [] then bs @ [join newline cb] else bs)"
    by (auto simp: group_blocks_def split: sum.splits)
  have "concat (map h (fst (bs, cb))) @ concat (map h (snd (bs, cb))) =
      (concat (map h (fst ([]::string list, []::string list))) @
       concat (map h (snd ([]::string list, []::string list)))) @
      concat (map h (split_nl (strip text)))"
    by (rule fold_err_additive [OF f]) (rule group_line_additive [OF sa])
  then have "concat (map h bs) @ concat (map h cb) = h text"
    by (simp add: sa_split_nl [OF sa] sa_strip [OF sa])
  with r show ?thesis by (cases "cb = []") (simp_all add: sa_join_newline [OF sa])
qed

text \<open>The sentence splitter.\<close>

lemma sentences_of_re_split_from_additive:
  assumes sa: "space_additive h"
  shows "concat (map h (sentences_of (re_split_from cur s))) = h (cur @ s)"
proof (induction cur s rule: re_split_from.induct)
  case (1 cur)
  then show ?case by (simp add: sa_blank [OF sa])
next
  case (2 cur c cs)
  show ?case
  proof (cases "is_terminal c \<and> cs \<noteq> [] \<and> is_space (hd cs)")
    case True
    then have r: "re_split_from cur (c # cs) =
        cur # [c] # re_split_from [] (dropWhile is_space cs)"
      by simp
    from True have "py_in [c] ''.!?''" by (intro py_in_terminal) simp
    with r have s: "sentences_of (re_split_from cur (c # cs)) =
        (cur @ [c]) # sentences_of (re_split_from [] (dropWhile is_space cs))"
      by simp
    from True have "h ((cur @ [c]) @ cs) = h (cur @ [c]) @ h cs"
      using sa by (intro sa_cut) simp_all
    moreover have "h (dropWhile is_space cs) = h cs" using sa by (rule sa_dropWhile)
    ultimately show ?thesis using "2.IH"(1) [OF True] s by simp
  next
    case False
    then have r: "re_split_from cur (c # cs) = re_split_from (cur @ [c]) cs"
      by (simp only: re_split_from.simps if_False)
    with "2.IH"(2) [OF False] show ?thesis by simp
  qed
qed

lemma pack_sentence_additive:
  assumes sa: "space_additive h"
  shows "concat (map h (fst (pack_sentence max_words st s))) @
       h (fst (snd (pack_sentence max_words st s))) =
     (concat (map h (fst st)) @ h (fst (snd st))) @ h s"
proof -
  obtain segs cur n where st: "st = (segs, cur, n)" by (cases st)
  have j: "h (cur @ '' '' @ strip s) = h cur @ h s"
    using sa_sep [OF sa, of "'' ''" cur "strip s"] by (simp add: sa_strip [OF sa])
  show ?thesis
  proof (cases "strip s = []")
    case True
    with st sa_blank [OF sa True] show ?thesis by (simp add: Let_def)
  next
    case False
    with st j show ?thesis
      by (simp add: Let_def sa_strip [OF sa] sa_Nil [OF sa])
  qed
qed

lemma split_long_text_additive:
  assumes sa: "space_additive h" and c: "split_long_text text max_words = Inr chunks"
  shows "concat (map h chunks) = h text"
proof -
  let ?st = "foldl (pack_sentence max_words) ([], [], 0) (sentences_of (re_split text))"
  obtain segs cur n where st: "?st = (segs, cur, n)" by (cases ?st)
  from c st have ch: "chunks = (if strip cur \<noteq> [] then segs @ [strip cur] else segs)"
    by (simp add: split_long_text_eq)
  have "concat (map h (fst ?st)) @ h (fst (snd ?st)) =
      (concat (map h (fst ([]::string list, []::string, 0::int))) @
       h (fst (snd ([]::string list, []::string, 0::int)))) @
      concat (map h (sentences_of (re_split text)))"
    by (rule foldl_additive) (rule pack_sentence_additive [OF sa])
  then have "concat (map h segs) @ h cur =
      concat (map h (sentences_of (re_split text)))"
    by (simp add: st sa_Nil [OF sa])
  then have "concat (map h segs) @ h cur = h text"
    by (simp add: re_split_def sentences_of_re_split_from_additive [OF sa])
  with ch show ?thesis
    by (cases "strip cur = []") (simp_all add: sa_blank [OF sa] sa_strip [OF sa])
qed

text \<open>The packer.\<close>

lemma pack_line_additive:
  assumes sa: "space_additive h" and p: "pack_line max_words st line = Inr st'"
  shows "concat (map h (fst st')) @ h (fst (snd st')) =
     (concat (map h (fst st)) @ h (fst (snd st))) @ h line"
proof -
  obtain segs cur n where st: "st = (segs, cur, n)" by (cases st)
  have j: "h (cur @ newline @ line) = h cur @ h line"
    by (rule sa_sep [OF sa]) (simp_all add: newline_def)
  show ?thesis
  proof (cases "word_count line > max_words")
    case True
    with p st obtain split_line where
      sl: "split_long_text line max_words = Inr split_line"
      and st': "st' = (if cur \<noteq> [] then (segs @ [strip cur] @ split_line, [], 0)
                       else (segs @ split_line, cur, n))"
      by (auto simp: Let_def split: sum.splits if_splits)
    from split_long_text_additive [OF sa sl] st st' show ?thesis
      by (simp add: sa_strip [OF sa] sa_Nil [OF sa])
  next
    case le: False
    show ?thesis
    proof (cases "n + word_count line > max_words")
      case True
      with le p st
      have "st' = ((if cur \<noteq> [] then segs @ [strip cur] else segs), line, word_count line)"
        by (simp add: Let_def)
      with st show ?thesis by (simp add: sa_strip [OF sa] sa_Nil [OF sa])
    next
      case False
      with le p st
      have "st' = (segs, (if cur \<noteq> [] then cur @ newline @ line else line), n + word_count line)"
        by (simp add: Let_def)
      with st j show ?thesis by (simp add: sa_Nil [OF sa])
    qed
  qed
qed

lemma pack_block_additive:
  assumes sa: "space_additive h" and p: "pack_block max_words segments block = Inr segments'"
  shows "concat (map h segments') = concat (map h segments) @ h block"
proof (cases "strip block = [] \<or> word_count (strip block) \<le> max_words")
  case True
  with p show ?thesis
    by (auto simp: pack_block_def Let_def sa_blank [OF sa] sa_strip [OF sa] split: if_splits)
next
  case False
  show ?thesis
  proof (cases "list_ex (\<lambda>l. is_bullet (strip l)) (split_nl (strip block))")
    case True
    with False p obtain segs cur n where
      f: "fold_err (pack_line max_words) (segments, [], 0) (split_nl (strip block)) = Inr (segs, cur, n)"
      and r: "segments' = (if strip cur \<noteq> [] then segs @ [strip cur] else segs)"
      by (auto simp: pack_block_def Let_def split: sum.splits)
    have "concat (map h (fst (segs, cur, n))) @ h (fst (snd (segs, cur, n))) =
        (concat (map h (fst (segments, []::string, 0::int))) @
         h (fst (snd (segments, []::string, 0::int)))) @
        concat (map h (split_nl (strip block)))"
      by (rule fold_err_additive [OF f]) (rule pack_line_additive [OF sa])
    then have "concat (map h segs) @ h cur = concat (map h segments) @ h block"
      by (simp add: sa_split_nl [OF sa] sa_strip [OF sa] sa_Nil [OF sa])
    with r show ?thesis
      by (cases "strip cur = []") (simp_all add: sa_blank [OF sa] sa_strip [OF sa])
  next
    case nb: False
    with False p obtain split_text where
      sl: "split_long_text (strip block) max_words = Inr split_text"
      and r: "segments' = segments @ split_text"
      by (auto simp: pack_block_def Let_def split: sum.splits)
    from split_long_text_additive [OF sa sl] r show ?thesis by (simp add: sa_strip [OF sa])
  qed
qed

lemma pack_blocks_additive:
  assumes sa: "space_additive h" and p: "pack_blocks max_words blocks = Inr segments"
  shows "concat (map h segments) = concat (map h blocks)"
proof -
  from p have f: "fold_err (pack_block max_words) [] blocks = Inr segments"
    by (simp add: pack_blocks_def)
  have "concat (map h segments) = concat (map h ([]::string list)) @ concat (map h blocks)"
    by (rule fold_err_additive [OF f, where m = "\<lambda>s. concat (map h s)"])
       (rule pack_block_additive [OF sa])
  then show ?thesis by simp
qed

lemma packed_additive:
  assumes "space_additive h" "group_blocks text = Inr blocks"
    "pack_blocks max_words blocks = Inr packed"
  shows "concat (map h packed) = h text"
  using pack_blocks_additive [OF assms(1,3)] group_blocks_additive [OF assms(1,2)] by simp

subsection \<open>The markers are kept, in their order\<close>

lemma match_marker_after_space:
  assumes "a \<noteq> []" "is_space (last a)"
  shows "match_marker (a @ b) = match_marker a"
proof (cases "match_marker (a @ b)")
  case None
  then show ?thesis
    using match_marker_mono [of a "a @ b"] by (cases "match_marker a") auto
next
  case (Some ds)
  then have ds: "ds \<noteq> []" "list_all is_digit ds" and p: "prefix (marker_text ds) (a @ b)"
    unfolding match_marker_iff by blast+
  from p have "prefix (marker_text ds) a \<or> (\<exists>u. marker_text ds = a @ u)"
    by (auto simp: prefix_append)
  then have "prefix (marker_text ds) a"
  proof
    assume "\<exists>u. marker_text ds = a @ u"
    then obtain u where u: "marker_text ds = a @ u" ..
    with assms(1) have "last a \<in> set (marker_text ds)" by simp
    with assms(2) show ?thesis using marker_text_no_space [OF ds(2)] by blast
  qed
  with ds have "match_marker a = Some ds" by (simp add: match_marker_iff)
  with Some show ?thesis by simp
qed

lemma markers_cut:
  "a = [] \<or> b = [] \<or> is_space (last a) \<or> is_space (hd b) \<Longrightarrow>
     markers (a @ b) = markers a @ markers b"
proof (induction a)
  case Nil
  then show ?case by simp
next
  case (Cons x a)
  have m: "match_marker ((x # a) @ b) = match_marker (x # a)"
  proof (cases "b = [] \<or> is_space (hd b)")
    case True
    then show ?thesis by (rule match_marker_before_space)
  next
    case False
    with Cons.prems have "is_space (last (x # a))" by blast
    then show ?thesis by (intro match_marker_after_space) simp_all
  qed
  from Cons.prems have "a = [] \<or> b = [] \<or> is_space (last a) \<or> is_space (hd b)"
    by (cases "a = []") auto
  from Cons.IH [OF this] m show ?case by simp
qed

lemma space_additive_markers: "space_additive markers"
  unfolding space_additive_def using markers_cut by simp

lemma relocate_markers: "concat (map markers (relocate segments)) = concat (map markers segments)"
proof (induction segments)
  case Nil
  then show ?case by (simp add: relocate_map)
next
  case (Cons seg segments)
  have "relocate (seg # segments) = relocate [seg] @ relocate segments"
    using relocate_append [of "[seg]" segments] by simp
  with Cons relocate_segment_markers [of seg] show ?case by simp
qed

lemma split_markdown_markers:
  assumes "split_markdown_for_video_with_image_split text max_words = Inr raws"
  shows "concat (map markers raws) = markers text"
proof -
  from assms obtain blocks packed where b: "group_blocks text = Inr blocks"
    and p: "pack_blocks max_words blocks = Inr packed" and s: "raws = relocate packed"
    by (auto simp: split_markdown_for_video_with_image_split_def split: sum.splits)
  from packed_additive [OF space_additive_markers b p] show ?thesis
    by (simp add: s relocate_markers)
qed

subsection \<open>When the classifier raises\<close>

lemma raw_markers_subset:
  assumes "split_markdown_for_video_with_image_split text max_words = Inr raws"
    and "raw \<in> set raws"
  shows "set (markers raw) \<subseteq> set (markers text)"
proof -
  from assms(2) have "set (markers raw) \<subseteq> set (concat (map markers raws))" by auto
  with split_markdown_markers [OF assms(1)] show ?thesis by simp
qed

lemma get_script_segments_returns_or_raises:
  "(\<exists>segs. get_script_segments text max_words = Inr segs) \<or>
   (get_script_segments text max_words = Inl ValueError \<and>
    list_ex (\<lambda>ds. max_str_digits < length ds) (markers text))"
proof -
  obtain raws where r: "split_markdown_for_video_with_image_split text max_words = Inr raws"
    using split_markdown_total by blast
  then have g: "get_script_segments text max_words = fold_err classify_step [] raws"
    by (simp add: get_script_segments_def)
  show ?thesis
  proof (cases "fold_err classify_step [] raws")
    case (Inr segs)
    with g show ?thesis by simp
  next
    case (Inl e)
    from fold_classify_error [OF Inl] obtain raw where e: "e = ValueError"
      and raw: "raw \<in> set raws" "markers raw \<noteq> []"
      and long: "max_str_digits < length (hd (markers raw))"
      by blast
    from raw(2) have "hd (markers raw) \<in> set (markers raw)" by simp
    with raw_markers_subset [OF r raw(1)] have "hd (markers raw) \<in> set (markers text)" by blast
    with long have "list_ex (\<lambda>ds. max_str_digits < length ds) (markers text)"
      unfolding list_ex_iff by blast
    with g Inl e show ?thesis by simp
  qed
qed

lemma get_script_segments_raises:
  assumes "markers text \<noteq> []" "list_all (\<lambda>ds. max_str_digits < length ds) (markers text)"
  shows "get_script_segments text max_words = Inl ValueError"
proof -
  obtain raws where r: "split_markdown_for_video_with_image_split text max_words = Inr raws"
    using split_markdown_total by blast
  then have g: "get_script_segments text max_words = fold_err classify_step [] raws"
    by (simp add: get_script_segments_def)
  from split_markdown_markers [OF r] assms(1) have "concat (map markers raws) \<noteq> []" by simp
  then obtain raw where raw: "raw \<in> set raws" "markers raw \<noteq> []" by auto
  from raw(2) have "hd (markers raw) \<in> set (markers raw)" by simp
  with raw_markers_subset [OF r raw(1)] have "hd (markers raw) \<in> set (markers text)" by blast
  with assms(2) have "max_str_digits < length (hd (markers raw))"
    unfolding list_all_iff by blast
  with raw have "fold_err classify_step [] raws = Inl ValueError" by (rule fold_classify_long)
  with g show ?thesis by simp
qed

lemma markers_of_zeros:
  assumes "0 < n"
  shows "markers (''a ![]($'' @ replicate n CHR ''0'' @ ''$)'') = [replicate n CHR ''0'']"
proof -
  let ?ds = "replicate n CHR ''0''"
  have t: "''a ![]($'' @ ?ds @ ''$)'' = ''a '' @ (marker_text ?ds @ [])"
    by (simp add: marker_text_def)
  have ds: "?ds \<noteq> []" "list_all is_digit ?ds"
    using assms by (simp_all add: list_all_iff is_digit_def)
  have "markers (''a '' @ (marker_text ?ds @ [])) = markers ''a '' @ markers (marker_text ?ds @ [])"
    by (rule markers_cut) (simp add: is_space_def)
  moreover have "markers ''a '' = []" by code_simp
  ultimately show ?thesis by (simp only: t markers_marker_text [OF ds]) simp
qed

lemma long_marker_raises:
  assumes "max_str_digits < n"
  shows "get_script_segments (''a ![]($'' @ replicate n CHR ''0'' @ ''$)'') max_words =
     Inl ValueError"
proof -
  from assms have "0 < n" by simp
  from markers_of_zeros [OF this] assms show ?thesis
    by (intro get_script_segments_raises) simp_all
qed

subsection \<open>The words are kept where the text is cut at white space\<close>

lemma split_ws_word:
  "\<not> is_space c \<Longrightarrow> \<forall>d\<in>set cs. \<not> is_space d \<Longrightarrow> split_ws (c # cs) = [c # cs]"
proof -
  assume c: "\<not> is_space c" and cs: "\<forall>d\<in>set cs. \<not> is_space d"
  from cs have t: "takeWhile (\<lambda>d. \<not> is_space d) cs = cs" by (simp add: takeWhile_eq_all_conv)
  from cs have d: "dropWhile (\<lambda>d. \<not> is_space d) cs = []" by simp
  from c have "split_ws (c # cs) =
      (c # takeWhile (\<lambda>d. \<not> is_space d) cs) # split_ws (dropWhile (\<lambda>d. \<not> is_space d) cs)"
    by simp
  then show ?thesis by (simp only: t d split_ws.simps(1))
qed

lemma split_ws_cut:
  "a = [] \<or> b = [] \<or> is_space (last a) \<or> is_space (hd b) \<Longrightarrow>
     split_ws (a @ b) = split_ws a @ split_ws b"
proof (induction a rule: split_ws.induct)
  case 1
  then show ?case by simp
next
  case (2 c cs)
  let ?ns = "\<lambda>d. \<not> is_space d"
  show ?case
  proof (cases "is_space c")
    case True
    from "2.prems" have "cs = [] \<or> b = [] \<or> is_space (last cs) \<or> is_space (hd b)"
      by (cases "cs = []") auto
    from "2.IH"(1) [OF True this] True show ?thesis by simp
  next
    case False
    show ?thesis
    proof (cases "dropWhile ?ns cs = []")
      case True
      then have all: "\<forall>d\<in>set cs. \<not> is_space d" by (simp add: dropWhile_eq_Nil_conv)
      with False have "\<not> is_space (last (c # cs))"
        by (metis last_in_set list.distinct(1) set_ConsD)
      with "2.prems" have b: "b = [] \<or> is_space (hd b)" by auto
      then have tb: "takeWhile ?ns b = []" and db: "dropWhile ?ns b = b"
        by (cases b; auto)+
      from all have "takeWhile ?ns (cs @ b) = cs @ takeWhile ?ns b"
        by (simp add: takeWhile_append2)
      moreover from all have "dropWhile ?ns (cs @ b) = dropWhile ?ns b"
        by (simp add: dropWhile_append2)
      ultimately have "split_ws ((c # cs) @ b) = (c # cs) # split_ws b"
        using False tb db by simp
      with split_ws_word [OF False all] show ?thesis by simp
    next
      case ne: False
      then obtain x where x: "x \<in> set cs" "is_space x"
        by (auto simp: dropWhile_eq_Nil_conv)
      then have t: "takeWhile ?ns (cs @ b) = takeWhile ?ns cs"
        and d: "dropWhile ?ns (cs @ b) = dropWhile ?ns cs @ b"
        by (auto intro: takeWhile_append1 dropWhile_append1)
      from ne have "last (dropWhile ?ns cs) = last cs" by (rule last_dropWhile)
      moreover from ne have "cs \<noteq> []" by auto
      ultimately have "dropWhile ?ns cs = [] \<or> b = [] \<or>
          is_space (last (dropWhile ?ns cs)) \<or> is_space (hd b)"
        using "2.prems" by auto
      from "2.IH"(2) [OF False this] False t d show ?thesis by simp
    qed
  qed
qed

lemma space_additive_split_ws: "space_additive split_ws"
  unfolding space_additive_def using split_ws_cut by simp

lemma split_ws_strip [simp]: "split_ws (strip s) = split_ws s"
  using space_additive_split_ws by (rule sa_strip)

lemma split_ws_join_blank: "split_ws (join '' '' xs) = concat (map split_ws xs)"
  by (rule sa_join [OF space_additive_split_ws]) (simp_all add: is_space_def)

lemma content_split_ws: "concat (split_ws s) = content s"
proof (induction s rule: split_ws.induct)
  case 1
  then show ?case by (simp add: content_def)
next
  case (2 c cs)
  let ?ns = "\<lambda>d. \<not> is_space d"
  show ?case
  proof (cases "is_space c")
    case True
    with 2 show ?thesis by (simp add: content_def)
  next
    case False
    have "content cs = content (takeWhile ?ns cs @ dropWhile ?ns cs)" by simp
    also have "\<dots> = content (takeWhile ?ns cs) @ content (dropWhile ?ns cs)"
      by (simp only: content_append)
    also have "content (takeWhile ?ns cs) = takeWhile ?ns cs"
      by (auto simp: content_def filter_id_conv dest: set_takeWhileD)
    finally have "content cs = takeWhile ?ns cs @ content (dropWhile ?ns cs)" .
    with False "2.IH"(2) [OF False] show ?thesis by (simp add: content_def)
  qed
qed

subsection \<open>Markers that end a word\<close>

lemma match_marker_cut:
  assumes "b = [] \<or> is_space (last (x # a)) \<or> is_space (hd b)"
  shows "match_marker ((x # a) @ b) = match_marker (x # a)"
proof (cases "b = [] \<or> is_space (hd b)")
  case True
  then show ?thesis by (rule match_marker_before_space)
next
  case False
  with assms have "is_space (last (x # a))" by blast
  then show ?thesis by (intro match_marker_after_space) simp_all
qed

lemma marker_text_last: "last (marker_text ds) = CHR '')''"
  by (simp add: marker_text_def)

lemma ends_word_cut:
  assumes m: "match_marker s = Some ds"
    and cut: "b = [] \<or> is_space (last s) \<or> is_space (hd b)"
  shows "ends_word (drop (7 + length ds) (s @ b)) = ends_word (drop (7 + length ds) s)"
proof -
  let ?k = "7 + length ds"
  from match_marker_length [OF m] have "drop ?k (s @ b) = drop ?k s @ b" by simp
  moreover have "ends_word (drop ?k s @ b) = ends_word (drop ?k s)"
  proof (cases "drop ?k s = []")
    case True
    with match_marker_SomeD(1) [OF m] have "s = marker_text ds" by simp
    then have "last s = CHR '')''" by (simp only: marker_text_last)
    then have "\<not> is_space (last s)" by (simp add: is_space_def)
    with cut True show ?thesis by (simp add: ends_word_def)
  next
    case False
    then show ?thesis by (simp add: ends_word_def)
  qed
  ultimately show ?thesis by simp
qed

lemma marker_ends_cut:
  "a = [] \<or> b = [] \<or> is_space (last a) \<or> is_space (hd b) \<Longrightarrow>
     marker_ends (a @ b) = marker_ends a @ marker_ends b"
proof (induction a)
  case Nil
  then show ?case by simp
next
  case (Cons x a)
  from Cons.prems have c: "b = [] \<or> is_space (last (x # a)) \<or> is_space (hd b)" by blast
  note m = match_marker_cut [OF c]
  from Cons.prems have "a = [] \<or> b = [] \<or> is_space (last a) \<or> is_space (hd b)"
    by (cases "a = []") auto
  note ih = Cons.IH [OF this]
  show ?case
  proof (cases "match_marker (x # a)")
    case None
    with m ih show ?thesis by simp
  next
    case (Some ds)
    from ends_word_cut [OF Some c]
    have "ends_word (drop (7 + length ds) ((x # a) @ b)) =
        ends_word (drop (7 + length ds) (x # a))" .
    with m ih Some show ?thesis by simp
  qed
qed

lemma space_additive_marker_ends: "space_additive marker_ends"
  unfolding space_additive_def using marker_ends_cut by (simp add: match_marker_space)

lemma marker_ends_at:
  "list_all (\<lambda>e. e) (marker_ends s) \<Longrightarrow> match_marker (drop i s) = Some ds \<Longrightarrow>
     ends_word (drop (i + 7 + length ds) s)"
proof (induction s arbitrary: i)
  case Nil
  then show ?case by simp
next
  case (Cons c cs)
  show ?case
  proof (cases i)
    case 0
    with Cons.prems show ?thesis by simp
  next
    case (Suc j)
    with Cons.prems have "list_all (\<lambda>e. e) (marker_ends cs)"
      and "match_marker (drop j cs) = Some ds" by simp_all
    from Cons.IH [OF this] have "ends_word (drop (j + 7 + length ds) cs)" .
    moreover have "i + 7 + length ds = Suc (j + 7 + length ds)" using Suc by simp
    ultimately show ?thesis by (simp only: drop_Suc_Cons)
  qed
qed

subsection \<open>The relocator keeps the words when it cuts after a marker that ends a word\<close>

lemma relocate_single_words:
  assumes "list_all (\<lambda>e. e) (marker_ends seg)"
  shows "concat (map split_ws (relocate [seg])) = split_ws seg"
proof (cases "search_marker seg")
  case None
  then show ?thesis by (simp add: relocate_single_None)
next
  case (Some m)
  obtain p e ds where m: "m = (p, e, ds)" by (cases m)
  with Some have s: "search_marker seg = Some (p, e, ds)" by simp
  from search_marker_SomeD [OF s] have mm: "match_marker (drop p seg) = Some ds"
    and e: "e = p + 7 + length ds" by simp_all
  from marker_ends_at [OF assms mm] e have "ends_word (drop e seg)" by simp
  then have "split_ws (take e seg @ drop e seg) = split_ws (take e seg) @ split_ws (drop e seg)"
    by (intro split_ws_cut) (auto simp: ends_word_def)
  then have w: "split_ws seg = split_ws (strip (take e seg)) @ split_ws (strip (drop e seg))"
    by simp
  show ?thesis
  proof (cases "strip (drop e seg) = []")
    case True
    with w show ?thesis by (simp add: relocate_single_Some [OF s])
  next
    case False
    with w show ?thesis by (simp add: relocate_single_Some [OF s])
  qed
qed

lemma relocate_words:
  "\<forall>seg\<in>set segments. list_all (\<lambda>e. e) (marker_ends seg) \<Longrightarrow>
     concat (map split_ws (relocate segments)) = concat (map split_ws segments)"
proof (induction segments)
  case Nil
  then show ?case by (simp add: relocate_map)
next
  case (Cons seg segments)
  have "relocate (seg # segments) = relocate [seg] @ relocate segments"
    using relocate_append [of "[seg]" segments] by simp
  with Cons relocate_single_words [of seg] show ?case by simp
qed

lemma split_markdown_words:
  assumes r: "split_markdown_for_video_with_image_split text max_words = Inr segments"
    and ends: "list_all (\<lambda>e. e) (marker_ends text)"
  shows "concat (map split_ws segments) = split_ws text"
proof -
  from r obtain blocks packed where b: "group_blocks text = Inr blocks"
    and p: "pack_blocks max_words blocks = Inr packed" and s: "segments = relocate packed"
    by (auto simp: split_markdown_for_video_with_image_split_def split: sum.splits)
  from packed_additive [OF space_additive_marker_ends b p]
  have c: "concat (map marker_ends packed) = marker_ends text" .
  have "\<forall>seg\<in>set packed. list_all (\<lambda>e. e) (marker_ends seg)"
  proof
    fix seg assume "seg \<in> set packed"
    then have "set (marker_ends seg) \<subseteq> set (concat (map marker_ends packed))" by auto
    with c ends show "list_all (\<lambda>e. e) (marker_ends seg)"
      unfolding list_all_iff by auto
  qed
  then have "concat (map split_ws segments) = concat (map split_ws packed)"
    unfolding s by (rule relocate_words)
  also have "\<dots> = split_ws text" using space_additive_split_ws b p by (rule packed_additive)
  finally show ?thesis .
qed

subsection \<open>The normalised text is its words with one blank between them\<close>

lemma collapse_ws_word:
  "\<forall>d\<in>set u. \<not> is_space d \<Longrightarrow> collapse_ws (u @ r) = u @ collapse_ws r"
  by (induction u) simp_all

lemma collapse_ws_Nil_iff: "collapse_ws s = [] \<longleftrightarrow> s = []"
  by (cases s) simp_all

lemma collapse_ws_hd: "s \<noteq> [] \<Longrightarrow> \<not> is_space (hd s) \<Longrightarrow> hd (collapse_ws s) = hd s"
  by (cases s) simp_all

lemma rstrip_append:
  "rev (dropWhile is_space (rev (a @ y))) =
     (if \<forall>c\<in>set y. is_space c then rev (dropWhile is_space (rev a))
      else a @ rev (dropWhile is_space (rev y)))"
  by (simp add: dropWhile_append)

lemma rstrip_word:
  "\<forall>d\<in>set u. \<not> is_space d \<Longrightarrow> rev (dropWhile is_space (rev u)) = u"
proof (cases "u = []")
  case True
  then show ?thesis by simp
next
  case False
  assume "\<forall>d\<in>set u. \<not> is_space d"
  with False have "\<not> is_space (hd (rev u))" by (simp add: hd_rev)
  with False have "dropWhile is_space (rev u) = rev u" by (cases "rev u") simp_all
  then show ?thesis by simp
qed

lemma split_ws_Nil_iff: "split_ws s = [] \<longleftrightarrow> (\<forall>c\<in>set s. is_space c)"
  by (induction s rule: split_ws.induct) auto

lemma rstrip_collapse_ws:
  "s = [] \<or> \<not> is_space (hd s) \<Longrightarrow>
     rev (dropWhile is_space (rev (collapse_ws s))) = join '' '' (split_ws s)"
proof (induction "length s" arbitrary: s rule: less_induct)
  case less
  let ?ns = "\<lambda>d. \<not> is_space d"
  show ?case
  proof (cases s)
    case Nil
    then show ?thesis by simp
  next
    case (Cons c cs)
    with less.prems have c: "\<not> is_space c" by simp
    let ?w = "takeWhile ?ns cs" and ?r = "dropWhile ?ns cs"
    have w: "\<forall>d\<in>set (c # ?w). \<not> is_space d" using c by (auto dest: set_takeWhileD)
    have "collapse_ws ((c # ?w) @ ?r) = (c # ?w) @ collapse_ws ?r"
      using w by (rule collapse_ws_word)
    then have cw: "collapse_ws s = (c # ?w) @ collapse_ws ?r" using Cons by simp
    have sw: "split_ws s = (c # ?w) # split_ws ?r" using Cons c by simp
    show ?thesis
    proof (cases ?r)
      case Nil
      with cw sw rstrip_word [OF w] show ?thesis by simp
    next
      case r: (Cons d r')
      then have d: "is_space d" by (metis hd_dropWhile list.distinct(1) list.sel(1))
      let ?t = "dropWhile is_space r'"
      from r d have cr: "collapse_ws ?r = CHR '' '' # collapse_ws ?t" by simp
      from r d have sr: "split_ws ?r = split_ws ?t"
        using sa_dropWhile [OF space_additive_split_ws, of r'] by simp
      have "length ?r \<le> length cs" by (rule length_dropWhile_le)
      with r have "length r' < length cs" by simp
      moreover have "length ?t \<le> length r'" by (rule length_dropWhile_le)
      ultimately have len: "length ?t < length s" using Cons by simp
      have st: "?t = [] \<or> \<not> is_space (hd ?t)" by (metis hd_dropWhile)
      note ih = less.hyps [OF len st]
      show ?thesis
      proof (cases "?t = []")
        case True
        have "collapse_ws ?r = '' ''" by (simp only: cr True collapse_ws.simps)
        with cw have "collapse_ws s = (c # ?w) @ '' ''" by simp
        then have "rev (dropWhile is_space (rev (collapse_ws s))) =
            rev (dropWhile is_space (rev (c # ?w)))"
          by (simp only: rstrip_append) (simp add: is_space_def)
        then have 1: "rev (dropWhile is_space (rev (collapse_ws s))) = c # ?w"
          by (simp only: rstrip_word [OF w])
        have "split_ws ?r = []" by (simp only: sr True split_ws.simps)
        with sw have "join '' '' (split_ws s) = c # ?w" by simp
        with 1 show ?thesis by simp
      next
        case False
        with st have h: "\<not> is_space (hd ?t)" by blast
        from False h have "hd (collapse_ws ?t) = hd ?t" by (rule collapse_ws_hd)
        moreover from False have "collapse_ws ?t \<noteq> []" by (simp add: collapse_ws_Nil_iff)
        ultimately have "\<not> (\<forall>x\<in>set (CHR '' '' # collapse_ws ?t). is_space x)"
          using h by (metis hd_in_set list.set_intros(2))
        then have "rev (dropWhile is_space (rev ((c # ?w) @ (CHR '' '' # collapse_ws ?t)))) =
            (c # ?w) @ rev (dropWhile is_space (rev (CHR '' '' # collapse_ws ?t)))"
          by (simp only: rstrip_append if_False)
        also have "rev (dropWhile is_space (rev (CHR '' '' # collapse_ws ?t))) =
            CHR '' '' # rev (dropWhile is_space (rev (collapse_ws ?t)))"
        proof -
          have "\<not> (\<forall>x\<in>set (collapse_ws ?t). is_space x)"
            using \<open>collapse_ws ?t \<noteq> []\<close> \<open>hd (collapse_ws ?t) = hd ?t\<close> h
            by (metis hd_in_set)
          then have "rev (dropWhile is_space (rev ('' '' @ collapse_ws ?t))) =
              '' '' @ rev (dropWhile is_space (rev (collapse_ws ?t)))"
            by (simp only: rstrip_append if_False)
          then show ?thesis by simp
        qed
        finally have "rev (dropWhile is_space (rev (collapse_ws s))) =
            (c # ?w) @ CHR '' '' # join '' '' (split_ws ?t)"
          using cw cr ih by simp
        moreover from False h have "split_ws ?t \<noteq> []"
          by (metis hd_in_set split_ws_Nil_iff)
        then obtain y ys where "split_ws ?t = y # ys" by (cases "split_ws ?t") auto
        ultimately show ?thesis using sw sr by simp
      qed
    qed
  qed
qed

lemma dropWhile_collapse_ws:
  "dropWhile is_space (collapse_ws s) = collapse_ws (dropWhile is_space s)"
proof (cases s)
  case Nil
  then show ?thesis by simp
next
  case (Cons c cs)
  show ?thesis
  proof (cases "is_space c")
    case True
    let ?t = "dropWhile is_space cs"
    have "dropWhile is_space (collapse_ws ?t) = collapse_ws ?t"
    proof (cases ?t)
      case Nil
      then show ?thesis by (simp only: collapse_ws.simps dropWhile.simps)
    next
      case t: (Cons x xs)
      then have "\<not> is_space x" by (metis hd_dropWhile list.distinct(1) list.sel(1))
      then show ?thesis by (simp only: t collapse_ws.simps dropWhile.simps if_False)
    qed
    with Cons True show ?thesis by (simp add: is_space_def)
  next
    case False
    with Cons show ?thesis by simp
  qed
qed

lemma normalised_words: "strip (collapse_ws s) = join '' '' (split_ws s)"
proof -
  let ?t = "dropWhile is_space s"
  have "?t = [] \<or> \<not> is_space (hd ?t)" by (metis hd_dropWhile)
  from rstrip_collapse_ws [OF this]
  have "strip (collapse_ws s) = join '' '' (split_ws ?t)"
    by (simp add: strip_def dropWhile_collapse_ws)
  also have "split_ws ?t = split_ws s" using space_additive_split_ws by (rule sa_dropWhile)
  finally show ?thesis .
qed

lemma split_ws_words: "list_all (\<lambda>w. w \<noteq> [] \<and> (\<forall>c\<in>set w. \<not> is_space c)) (split_ws s)"
  by (induction s rule: split_ws.induct) (auto dest: set_takeWhileD)

lemma split_ws_join_words:
  "list_all (\<lambda>w. w \<noteq> [] \<and> (\<forall>c\<in>set w. \<not> is_space c)) ws \<Longrightarrow>
     split_ws (join '' '' ws) = ws"
proof -
  assume a: "list_all (\<lambda>w. w \<noteq> [] \<and> (\<forall>c\<in>set w. \<not> is_space c)) ws"
  have "split_ws (join '' '' ws) = concat (map split_ws ws)" by (rule split_ws_join_blank)
  also have "map split_ws ws = map (\<lambda>w. [w]) ws"
  proof (rule map_cong [OF refl])
    fix w assume "w \<in> set ws"
    with a have "w \<noteq> []" "\<forall>c\<in>set w. \<not> is_space c" by (auto simp: list_all_iff)
    then obtain c cs where "w = c # cs" "\<not> is_space c" "\<forall>d\<in>set cs. \<not> is_space d"
      by (cases w) auto
    then show "split_ws w = [w]" using split_ws_word by blast
  qed
  finally show ?thesis by simp
qed

lemma normalised_eq_iff:
  "strip (collapse_ws a) = strip (collapse_ws b) \<longleftrightarrow> split_ws a = split_ws b"
proof
  assume "strip (collapse_ws a) = strip (collapse_ws b)"
  then have "split_ws (join '' '' (split_ws a)) = split_ws (join '' '' (split_ws b))"
    by (simp only: normalised_words)
  then show "split_ws a = split_ws b"
    by (simp only: split_ws_join_words [OF split_ws_words])
next
  assume "split_ws a = split_ws b"
  then show "strip (collapse_ws a) = strip (collapse_ws b)" by (simp only: normalised_words)
qed

section \<open>The claims about the relocator and the classifier\<close>

text \<open>
  C2. For every packed segment the relocator looks for the first marker. The pieces it
  emits for a segment take the place of the segment in the output, in order. A segment
  without a marker passes through unchanged. For a segment with a marker, where \<open>p\<close> is
  the place of the first one (no marker lies before it) and \<open>ds\<close> its digits, the pieces
  are the stripped text up to and including the marker, if it is not empty, and then the
  stripped text after the marker, if it is not empty.
\<close>

theorem relocate_splices_at_first_marker:
  "relocate (xs @ [seg] @ ys) = relocate xs @ relocate [seg] @ relocate ys \<and>
   (markers seg = [] \<longrightarrow> relocate [seg] = [seg]) \<and>
   (\<forall>p ds. markers (take p seg) = [] \<and> match_marker (drop p seg) = Some ds \<longrightarrow>
      relocate [seg] =
        (if strip (take (p + 7 + length ds) seg) \<noteq> []
         then [strip (take (p + 7 + length ds) seg)] else []) @
        (if strip (drop (p + 7 + length ds) seg) \<noteq> []
         then [strip (drop (p + 7 + length ds) seg)] else []))"
proof (intro conjI allI impI)
  show "relocate (xs @ [seg] @ ys) = relocate xs @ relocate [seg] @ relocate ys"
    by (simp only: relocate_append)
next
  assume "markers seg = []"
  then have "search_marker seg = None" by (simp only: search_marker_None_iff)
  then show "relocate [seg] = [seg]" by (rule relocate_single_None)
next
  fix p ds
  assume "markers (take p seg) = [] \<and> match_marker (drop p seg) = Some ds"
  then have s: "search_marker seg = Some (p, p + 7 + length ds, ds)"
    by (simp add: search_marker_first)
  show "relocate [seg] =
        (if strip (take (p + 7 + length ds) seg) \<noteq> []
         then [strip (take (p + 7 + length ds) seg)] else []) @
        (if strip (drop (p + 7 + length ds) seg) \<noteq> []
         then [strip (drop (p + 7 + length ds) seg)] else [])"
    using strip_take_marker_nonempty [OF s] by (simp add: relocate_single_Some [OF s])
qed

theorem relocate_splices_at_first_marker_witness:
  "markers ''plain text'' = [] \<and> relocate [''plain text''] = [''plain text''] \<and>
   markers (take 6 ''A B C ![]($2$) D E F'') = [] \<and>
   match_marker (drop 6 ''A B C ![]($2$) D E F'') = Some ''2'' \<and>
   relocate [''A B C ![]($2$) D E F''] = [''A B C ![]($2$)'', ''D E F''] \<and>
   relocate ([''x''] @ [''A B C ![]($2$) D E F''] @ [''y'']) =
     [''x'', ''A B C ![]($2$)'', ''D E F'', ''y'']"
proof -
  have h1: "markers ''plain text'' = []" by code_simp
  have h2: "markers (take 6 ''A B C ![]($2$) D E F'') = [] \<and>
      match_marker (drop 6 ''A B C ![]($2$) D E F'') = Some ''2''" by code_simp
  have e1: "strip (take (6 + 7 + length ''2'') ''A B C ![]($2$) D E F'') = ''A B C ![]($2$)''"
    by code_simp
  have e2: "strip (drop (6 + 7 + length ''2'') ''A B C ![]($2$) D E F'') = ''D E F''"
    by code_simp
  have e3: "relocate [''x''] = [''x'']" "relocate [''y''] = [''y'']" by code_simp+
  note t1 = relocate_splices_at_first_marker [of "[]" "''plain text''" "[]"]
  note t2 = relocate_splices_at_first_marker [of "[''x'']" "''A B C ![]($2$) D E F''" "[''y'']"]
  from t1 h1 have r1: "relocate [''plain text''] = [''plain text'']" by blast
  from t2 h2 have "relocate [''A B C ![]($2$) D E F''] =
        (if strip (take (6 + 7 + length ''2'') ''A B C ![]($2$) D E F'') \<noteq> []
         then [strip (take (6 + 7 + length ''2'') ''A B C ![]($2$) D E F'')] else []) @
        (if strip (drop (6 + 7 + length ''2'') ''A B C ![]($2$) D E F'') \<noteq> []
         then [strip (drop (6 + 7 + length ''2'') ''A B C ![]($2$) D E F'')] else [])"
    by blast
  then have r2: "relocate [''A B C ![]($2$) D E F''] = [''A B C ![]($2$)'', ''D E F'']"
    by (simp only: e1 e2) simp
  from t2 have "relocate ([''x''] @ [''A B C ![]($2$) D E F''] @ [''y'']) =
      relocate [''x''] @ relocate [''A B C ![]($2$) D E F''] @ relocate [''y'']" by blast
  then have r3: "relocate ([''x''] @ [''A B C ![]($2$) D E F''] @ [''y'']) =
     [''x'', ''A B C ![]($2$)'', ''D E F'', ''y'']"
    by (simp only: r2 e3) simp
  from h1 r1 h2 r2 r3 show ?thesis by blast
qed

text \<open>
  C5. For every packed segment that holds more than one marker, the relocator honours
  the first one only: it cuts once, after the leftmost match. The first piece holds
  that marker and no other, and every other marker of the segment stays, as it is, in
  the second piece, the later segment of the relocator's output.
\<close>

theorem later_markers_stay_in_later_segment:
  assumes "1 < length (markers seg)"
  shows "\<exists>p e ds. search_marker seg = Some (p, e, ds) \<and> ds = hd (markers seg) \<and>
     relocate [seg] = [strip (take e seg), strip (drop e seg)] \<and>
     markers (strip (take e seg)) = [hd (markers seg)] \<and>
     markers (strip (drop e seg)) = tl (markers seg) \<and> tl (markers seg) \<noteq> []"
proof -
  from assms have ne: "markers seg \<noteq> []" by auto
  then obtain p e ds where s: "search_marker seg = Some (p, e, ds)"
    using search_marker_None_iff [of seg] by (cases "search_marker seg") auto
  note ms = markers_search [OF s]
  from assms ms(1) have tl: "markers (drop e seg) \<noteq> []" by auto
  then have "strip (drop e seg) \<noteq> []"
    using markers_strip [of "drop e seg"] by (cases "strip (drop e seg) = []") auto
  then have "relocate [seg] = [strip (take e seg), strip (drop e seg)]"
    by (simp add: relocate_single_Some [OF s])
  with s ms tl show ?thesis by simp
qed

theorem later_markers_stay_in_later_segment_witness:
  "1 < length (markers ''a ![]($1$) b ![]($2$) c ![]($3$)'') \<and>
   search_marker ''a ![]($1$) b ![]($2$) c ![]($3$)'' = Some (2, 10, ''1'') \<and>
   relocate [''a ![]($1$) b ![]($2$) c ![]($3$)''] = [''a ![]($1$)'', ''b ![]($2$) c ![]($3$)''] \<and>
   markers ''b ![]($2$) c ![]($3$)'' = tl (markers ''a ![]($1$) b ![]($2$) c ![]($3$)'') \<and>
   tl (markers ''a ![]($1$) b ![]($2$) c ![]($3$)'') = [''2'', ''3'']"
proof -
  let ?s = "''a ![]($1$) b ![]($2$) c ![]($3$)''"
  have h: "1 < length (markers ?s)" by code_simp
  have s: "search_marker ?s = Some (2, 10, ''1'')" by code_simp
  have e: "strip (take 10 ?s) = ''a ![]($1$)''" "strip (drop 10 ?s) = ''b ![]($2$) c ![]($3$)''"
    by code_simp+
  have t: "tl (markers ?s) = [''2'', ''3'']" by code_simp
  from later_markers_stay_in_later_segment [OF h] s
  have "relocate [?s] = [strip (take 10 ?s), strip (drop 10 ?s)] \<and>
      markers (strip (drop 10 ?s)) = tl (markers ?s)" by auto
  with h s t show ?thesis by (simp only: e)
qed

text \<open>
  C10. The relocator cuts a packed segment at most once: it emits at most two pieces,
  the markers of the pieces are the markers of the segment in their order, and the
  first piece holds only the first marker. So a second piece holds exactly the markers
  after the first one of its source segment, and it is not scanned again: the input
  \<^verbatim>\<open>a ![]($1$) b ![]($2$) c ![]($3$)\<close> gives a segment of the relocator, and the
  \<^verbatim>\<open>raw_text\<close> of a final segment, that holds two markers.
\<close>

theorem relocate_cuts_once:
  "length (relocate [seg]) \<le> 2 \<and>
   concat (map markers (relocate [seg])) = markers seg \<and>
   (markers seg \<noteq> [] \<longrightarrow>
      markers (hd (relocate [seg])) = [hd (markers seg)] \<and>
      concat (map markers (tl (relocate [seg]))) = tl (markers seg)) \<and>
   split_markdown_for_video_with_image_split ''a ![]($1$) b ![]($2$) c ![]($3$)'' 150 =
     Inr [''a ![]($1$)'', ''b ![]($2$) c ![]($3$)''] \<and>
   get_script_segments ''a ![]($1$) b ![]($2$) c ![]($3$)'' 150 =
     Inr [\<lparr>text' = ''a'', image_index = Some 1, has_image = True,
            raw_text = ''a ![]($1$)''\<rparr>,
          \<lparr>text' = ''b c'', image_index = Some 2, has_image = True,
            raw_text = ''b ![]($2$) c ![]($3$)''\<rparr>]"
proof (intro conjI impI)
  show "length (relocate [seg]) \<le> 2"
    by (cases "search_marker seg")
       (auto simp: relocate_single_None relocate_single_Some)
  show "concat (map markers (relocate [seg])) = markers seg"
    by (rule relocate_segment_markers)
  show "split_markdown_for_video_with_image_split ''a ![]($1$) b ![]($2$) c ![]($3$)'' 150 =
     Inr [''a ![]($1$)'', ''b ![]($2$) c ![]($3$)'']"
    by code_simp
  show "get_script_segments ''a ![]($1$) b ![]($2$) c ![]($3$)'' 150 =
     Inr [\<lparr>text' = ''a'', image_index = Some 1, has_image = True,
            raw_text = ''a ![]($1$)''\<rparr>,
          \<lparr>text' = ''b c'', image_index = Some 2, has_image = True,
            raw_text = ''b ![]($2$) c ![]($3$)''\<rparr>]"
    by code_simp
next
  assume ne: "markers seg \<noteq> []"
  then obtain p e ds where s: "search_marker seg = Some (p, e, ds)"
    using search_marker_None_iff [of seg] by (cases "search_marker seg") auto
  note ms = markers_search [OF s]
  from ms show "markers (hd (relocate [seg])) = [hd (markers seg)]"
    by (simp add: relocate_single_Some [OF s])
  from ms show "concat (map markers (tl (relocate [seg]))) = tl (markers seg)"
    by (simp add: relocate_single_Some [OF s] markers_strip_empty)
qed

theorem relocate_cuts_once_witness:
  "markers ''b ![]($2$) c ![]($3$) d'' \<noteq> [] \<and>
   relocate [''b ![]($2$) c ![]($3$) d''] = [''b ![]($2$)'', ''c ![]($3$) d''] \<and>
   markers (hd (relocate [''b ![]($2$) c ![]($3$) d''])) = [''2''] \<and>
   concat (map markers (tl (relocate [''b ![]($2$) c ![]($3$) d'']))) = [''3'']"
proof -
  let ?s = "''b ![]($2$) c ![]($3$) d''"
  have h: "markers ?s \<noteq> []" by code_simp
  have r: "relocate [?s] = [''b ![]($2$)'', ''c ![]($3$) d'']" by code_simp
  have m: "hd (markers ?s) = ''2''" "tl (markers ?s) = [''3'']" by code_simp+
  from relocate_cuts_once [of ?s] h
  have "markers (hd (relocate [?s])) = [hd (markers ?s)] \<and>
      concat (map markers (tl (relocate [?s]))) = tl (markers ?s)" by blast
  with h r m show ?thesis by simp
qed

text \<open>
  C8 does not hold as stated: a marker may have more digits than the interpreter
  converts to an integer (4300 by default), and then \<^verbatim>\<open>int(match.group(1))\<close> raises
  \<^verbatim>\<open>ValueError\<close>, which nothing catches. Here the marker has 4301 digits.
\<close>

theorem long_marker_raises_counterexample:
  "get_script_segments (''a ![]($'' @ replicate 4301 CHR ''0'' @ ''$)'') 150 = Inl ValueError"
  by (rule long_marker_raises) (simp add: max_str_digits_def)

text \<open>
  C8, amended. For every input string and every budget \<^verbatim>\<open>get_script_segments\<close> returns,
  or it raises \<^verbatim>\<open>ValueError\<close> and the input holds an image marker of more than 4300
  digits. So it returns for every input whose markers have at most 4300 digits each: no
  index is out of range, and no other conversion fails. The empty string gives the
  empty sequence.
\<close>

theorem get_script_segments_raises_only_on_long_marker:
  "((\<exists>segs. get_script_segments markdown_text max_words = Inr segs) \<or>
    (get_script_segments markdown_text max_words = Inl ValueError \<and>
     list_ex (\<lambda>ds. max_str_digits < length ds) (markers markdown_text))) \<and>
   get_script_segments [] max_words = Inr []"
  using get_script_segments_returns_or_raises get_script_segments_empty by blast

theorem get_script_segments_raises_only_on_long_marker_witness:
  "\<not> list_ex (\<lambda>ds. max_str_digits < length ds) (markers ''- a. b ![]($12$) c'') \<and>
   (\<exists>segs. get_script_segments ''- a. b ![]($12$) c'' 1 = Inr segs) \<and>
   get_script_segments [] 1 = Inr []"
proof -
  have h: "\<not> list_ex (\<lambda>ds. max_str_digits < length ds) (markers ''- a. b ![]($12$) c'')"
    by code_simp
  from get_script_segments_raises_only_on_long_marker [of "''- a. b ![]($12$) c''" 1] h
  show ?thesis by blast
qed

text \<open>
  C6 does not hold as stated: the digits of a marker may all be zero, and then the
  segment has the index 0, which is not positive.
\<close>

theorem image_index_zero_counterexample:
  "get_script_segments ''a ![]($0$)'' 150 =
     Inr [\<lparr>text' = ''a'', image_index = Some 0, has_image = True,
            raw_text = ''a ![]($0$)''\<rparr>] \<and>
   \<not> (0::int) < 0"
  by code_simp

text \<open>
  C6, amended. Every segment returned by \<^verbatim>\<open>get_script_segments\<close> has \<^verbatim>\<open>has_image\<close>
  true if and only if \<^verbatim>\<open>image_index\<close> is present; an index that is present is the
  value of the digits of the first marker of \<^verbatim>\<open>raw_text\<close>, which is never negative, and
  is positive exactly when one of these digits is not 0.
\<close>

theorem image_index_iff_has_image:
  assumes "get_script_segments markdown_text max_words = Inr segs" and "x \<in> set segs"
  shows "(has_image x \<longleftrightarrow> image_index x \<noteq> None) \<and>
     (\<forall>n. image_index x = Some n \<longrightarrow>
        0 \<le> n \<and> py_int (hd (markers (raw_text x))) = Inr n \<and>
        (0 < n \<longleftrightarrow> list_ex (\<lambda>c. c \<noteq> CHR ''0'') (hd (markers (raw_text x)))))"
proof -
  from get_script_segments_mem [OF assms(1)] assms(2)
  have c: "classify (raw_text x) = Inr x" by auto
  show ?thesis
  proof (cases "search_marker (raw_text x)")
    case None
    from classify_None [OF None c] show ?thesis by simp
  next
    case (Some m)
    obtain p e ds where "m = (p, e, ds)" by (cases m)
    with Some have s: "search_marker (raw_text x) = Some (p, e, ds)" by simp
    from classify_Some [OF s c] obtain n where n: "py_int ds = Inr n" "image_index x = Some n"
      and h: "has_image x" by blast
    from markers_search(1) [OF s] have "hd (markers (raw_text x)) = ds" by simp
    with n h py_int_value [OF n(1)] show ?thesis by (simp add: list_ex_iff)
  qed
qed

theorem image_index_iff_has_image_witness:
  "get_script_segments ''Money is a tool. ![]($1$)'' 150 =
     Inr [\<lparr>text' = ''Money is a tool.'', image_index = Some 1, has_image = True,
            raw_text = ''Money is a tool. ![]($1$)''\<rparr>] \<and>
   py_int (hd (markers ''Money is a tool. ![]($1$)'')) = Inr 1 \<and>
   list_ex (\<lambda>c. c \<noteq> CHR ''0'') (hd (markers ''Money is a tool. ![]($1$)''))"
proof -
  let ?x = "\<lparr>text' = ''Money is a tool.'', image_index = Some 1, has_image = True,
            raw_text = ''Money is a tool. ![]($1$)''\<rparr>"
  have g: "get_script_segments ''Money is a tool. ![]($1$)'' 150 = Inr [?x]" by code_simp
  have "?x \<in> set [?x]" by simp
  from image_index_iff_has_image [OF g this]
  have "py_int (hd (markers ''Money is a tool. ![]($1$)'')) = Inr 1 \<and>
      ((0::int) < 1 \<longleftrightarrow> list_ex (\<lambda>c. c \<noteq> CHR ''0'') (hd (markers ''Money is a tool. ![]($1$)'')))"
    by simp
  with g show ?thesis by simp
qed

text \<open>
  C9. The docstrings of \<^verbatim>\<open>ScriptSegment\<close> and of \<^verbatim>\<open>get_script_segments\<close> say that \<^verbatim>\<open>text\<close>
  is the text with the image patterns removed, and the classifier deletes every match
  of the pattern in one pass from left to right. The pass misses a marker that only
  comes to be when a match is deleted: the text on the two sides of the deleted match
  joins into a new marker. The second segment of this input is \<^verbatim>\<open>![]($1![]($2$)$)\<close>;
  its index is 2, from the inner marker, and its text is the marker \<^verbatim>\<open>![]($1$)\<close>.
\<close>

theorem nested_marker_stays_in_text:
  "get_script_segments ''![]($9$)![]($1![]($2$)$)'' 150 =
     Inr [\<lparr>text' = ''![]($1$)'', image_index = Some 2, has_image = True,
            raw_text = ''![]($1![]($2$)$)''\<rparr>] \<and>
   markers ''![]($1$)'' = [''1'']"
  by code_simp

section \<open>The claims about the grouper and about the content\<close>






section \<open>The claims about the budget and about oversized sentences\<close>






end
